theory Spec2Isabelle
  imports Complex_Main "HOL-Library.Log_Nat"
begin

section \<open>Python values, exceptions and dictionaries\<close>

text \<open>
  The program is one Python module, \<^verbatim>\<open>CyberSapiens.py\<close>. Its functions are embedded as HOL
  functions. A Python \<^verbatim>\<open>str\<close> is a \<^typ>\<open>string\<close>: the list of the bytes of its UTF-8
  encoding (a code point beyond ASCII is several \<^typ>\<open>char\<close>s, each of them 128 or more; a
  lone surrogate is encoded like any other code point of its size). The program never
  counts the characters of a \<^verbatim>\<open>str\<close>; it searches, splits and slices at ASCII
  delimiters, and these operations are the same on the bytes, because no byte of a longer
  sequence is an ASCII byte and no sequence starts inside another one. An exception is a
  value of \<open>py_error\<close>, returned as \<open>Inl\<close> of a sum type; a function that cannot raise has no
  sum in its type.
\<close>

datatype py_error =
    ValueError string
  | KeyError string
  | TypeError string
  | IndexError
  | ZeroDivisionError
  | OverflowError
  | AttributeError
  | RaisedError string

text \<open>
  \<open>RaisedError msg\<close> is an exception raised by an external collaborator (the extraction
  backend, the HTTP client, the file system), a subclass of \<^verbatim>\<open>Exception\<close> whose
  \<^verbatim>\<open>str(e)\<close> is \<open>msg\<close>. \<open>ValueError\<close> and \<open>TypeError\<close> carry their message,
  \<open>KeyError\<close> the missing key. \<open>str_error\<close> is \<^verbatim>\<open>str(e)\<close>.
\<close>

definition quoted :: "string \<Rightarrow> string" where
  "quoted s = CHR 0x27 # s @ [CHR 0x27]"

fun str_error :: "py_error \<Rightarrow> string" where
  "str_error (ValueError msg) = msg"
| "str_error (KeyError k) = quoted k"
| "str_error (TypeError msg) = msg"
| "str_error IndexError = ''list index out of range''"
| "str_error ZeroDivisionError = ''division by zero''"
| "str_error OverflowError = ''integer division result too large for a float''"
| "str_error AttributeError =
     quoted ''NoneType'' @ '' object has no attribute '' @ quoted ''get''"
| "str_error (RaisedError msg) = msg"

text \<open>The values found in the dictionaries that the extraction backend hands over.\<close>

datatype pyval = PNone | PInt int | PStr string

type_synonym pydict = "string \<rightharpoonup> pyval"

text \<open>\<^verbatim>\<open>d.get(k, default)\<close>; \<^verbatim>\<open>d.get(k)\<close> is \<^verbatim>\<open>d.get(k, None)\<close>.\<close>

definition dict_get :: "pydict \<Rightarrow> string \<Rightarrow> pyval \<Rightarrow> pyval" where
  "dict_get d k dflt = (case d k of None \<Rightarrow> dflt | Some v \<Rightarrow> v)"

text \<open>\<^verbatim>\<open>d[k]\<close> raises \<^verbatim>\<open>KeyError\<close> on a missing key.\<close>

definition dict_item :: "pydict \<Rightarrow> string \<Rightarrow> py_error + pyval" where
  "dict_item d k = (case d k of None \<Rightarrow> Inl (KeyError k) | Some v \<Rightarrow> Inr v)"

section \<open>Metadata fetch: \<^verbatim>\<open>get_video_info\<close>\<close>

text \<open>
  The dictionary that \<^verbatim>\<open>get_video_info\<close> returns has six fixed keys, so it is a record.
\<close>

record video_info =
  title :: pyval
  thumbnail :: pyval
  duration :: pyval
  description :: pyval
  uploader :: pyval
  view_count :: pyval

text \<open>
  The display layer: \<^verbatim>\<open>st.error\<close>, \<^verbatim>\<open>st.success\<close> and \<^verbatim>\<open>st.warning\<close> append a
  message; \<open>bar\<close> is the list of values the progress bar of \<^verbatim>\<open>main\<close> was given.
\<close>

record display =
  errors :: "string list"
  successes :: "string list"
  warnings :: "string list"
  bar :: "rat list"

definition st_error :: "string \<Rightarrow> display \<Rightarrow> display" where
  "st_error msg ui = ui\<lparr>errors := errors ui @ [msg]\<rparr>"

definition st_success :: "string \<Rightarrow> display \<Rightarrow> display" where
  "st_success msg ui = ui\<lparr>successes := successes ui @ [msg]\<rparr>"

definition st_warning :: "string \<Rightarrow> display \<Rightarrow> display" where
  "st_warning msg ui = ui\<lparr>warnings := warnings ui @ [msg]\<rparr>"

text \<open>
  The backend call \<^verbatim>\<open>ydl.extract_info(url, download=False)\<close> is a parameter: it raises
  (\<open>Inl\<close>), or returns a dictionary, or returns \<^verbatim>\<open>None\<close> (on which \<^verbatim>\<open>info.get\<close> raises
  \<^verbatim>\<open>AttributeError\<close>). The whole body is inside \<^verbatim>\<open>try\<close>, and \<^verbatim>\<open>except Exception\<close>
  reports through \<^verbatim>\<open>st.error\<close> and returns \<^verbatim>\<open>None\<close>.
\<close>

type_synonym extractor = "string \<Rightarrow> py_error + pydict option"

definition extract_fields :: "extractor \<Rightarrow> string \<Rightarrow> py_error + video_info" where
  "extract_fields extract_info url =
     (case extract_info url of
        Inl e \<Rightarrow> Inl e
      | Inr None \<Rightarrow> Inl AttributeError
      | Inr (Some info) \<Rightarrow>
          Inr \<lparr>title = dict_get info ''title'' (PStr ''Unknown Title''),
               thumbnail = dict_get info ''thumbnail'' PNone,
               duration = dict_get info ''duration'' PNone,
               description = dict_get info ''description'' (PStr ''No description available''),
               uploader = dict_get info ''uploader'' (PStr ''Unknown uploader''),
               view_count = dict_get info ''view_count'' (PInt 0)\<rparr>)"

definition get_video_info :: "extractor \<Rightarrow> string \<Rightarrow> display \<Rightarrow> video_info option \<times> display" where
  "get_video_info extract_info url ui =
     (case extract_fields extract_info url of
        Inr m \<Rightarrow> (Some m, ui)
      | Inl e \<Rightarrow> (None, st_error (''Error fetching video info: '' @ str_error e) ui))"

section \<open>Python string operations\<close>

text \<open>\<^verbatim>\<open>s.startswith(p)\<close> and \<^verbatim>\<open>s.endswith(e)\<close>.\<close>

fun startswith :: "string \<Rightarrow> string \<Rightarrow> bool" where
  "startswith s [] = True"
| "startswith [] (p # ps) = False"
| "startswith (c # cs) (p # ps) = (c = p \<and> startswith cs ps)"

definition endswith :: "string \<Rightarrow> string \<Rightarrow> bool" where
  "endswith s e = startswith (rev s) (rev e)"

text \<open>\<^verbatim>\<open>sub in s\<close>: \<open>sub\<close> occurs in \<open>s\<close> as a contiguous substring.\<close>

fun py_in :: "string \<Rightarrow> string \<Rightarrow> bool" where
  "py_in sub [] = (sub = [])"
| "py_in sub (c # cs) = (startswith (c # cs) sub \<or> py_in sub cs)"

text \<open>
  \<^verbatim>\<open>s.split(sep)\<close> for a separator of one character; \<open>w\<close> holds, reversed, the
  characters of the piece being read.
\<close>

fun split_from :: "char \<Rightarrow> string \<Rightarrow> string \<Rightarrow> string list" where
  "split_from sep w [] = [rev w]"
| "split_from sep w (c # cs) =
     (if c = sep then rev w # split_from sep [] cs else split_from sep (c # w) cs)"

definition py_split :: "char \<Rightarrow> string \<Rightarrow> string list" where
  "py_split sep s = split_from sep [] s"

text \<open>
  The subscription \<^verbatim>\<open>xs[i]\<close> of a list: the index \<open>- k\<close> selects the \<open>k\<close>-th element
  from the back, and an index outside the list is an \<^verbatim>\<open>IndexError\<close>.
\<close>

definition py_getitem :: "'a list \<Rightarrow> int \<Rightarrow> py_error + 'a" where
  "py_getitem xs i =
     (if 0 \<le> i
      then (if nat i < length xs then Inr (xs ! nat i) else Inl IndexError)
      else (if nat (- i) \<le> length xs then Inr (rev xs ! (nat (- i) - 1)) else Inl IndexError))"

text \<open>
  \<^verbatim>\<open>s.partition(sep)\<close> for a separator of one character: the text before the first
  separator and the text after it. \<open>after_last\<close> is \<^verbatim>\<open>s.rpartition(sep)[2]\<close>: the text
  after the last separator, all of \<open>s\<close> without one.
\<close>

definition before_first :: "char \<Rightarrow> string \<Rightarrow> string" where
  "before_first sep s = takeWhile (\<lambda>c. c \<noteq> sep) s"

definition after_first :: "char \<Rightarrow> string \<Rightarrow> string" where
  "after_first sep s = drop 1 (dropWhile (\<lambda>c. c \<noteq> sep) s)"

definition after_last :: "char \<Rightarrow> string \<Rightarrow> string" where
  "after_last sep s = rev (takeWhile (\<lambda>c. c \<noteq> sep) (rev s))"

text \<open>
  \<^verbatim>\<open>s.isascii()\<close>, and \<^verbatim>\<open>s.lower()\<close> for an ASCII string: the letters A to Z move up
  by 32.
\<close>

definition is_ascii :: "string \<Rightarrow> bool" where
  "is_ascii s = list_all (\<lambda>c. (of_char c :: nat) < 128) s"

definition lower_char :: "char \<Rightarrow> char" where
  "lower_char c =
     (let n = (of_char c :: nat) in if 65 \<le> n \<and> n \<le> 90 then char_of (n + 32) else c)"

definition ascii_lower :: "string \<Rightarrow> string" where
  "ascii_lower s = map lower_char s"

text \<open>
  \<^verbatim>\<open>s[:-1]\<close>: the string without its last character, which in the encoding is one byte
  below 128 or 192 and above, followed by bytes from 128 to 191.
\<close>

definition continuation_byte :: "char \<Rightarrow> bool" where
  "continuation_byte c = (128 \<le> (of_char c :: nat) \<and> (of_char c :: nat) < 192)"

definition without_last_char :: "string \<Rightarrow> string" where
  "without_last_char s = rev (drop 1 (dropWhile continuation_byte (rev s)))"

text \<open>\<^verbatim>\<open>s.replace(old, new)\<close> for one character \<open>old\<close>.\<close>

definition py_replace :: "char \<Rightarrow> string \<Rightarrow> string \<Rightarrow> string" where
  "py_replace old new s = concat (map (\<lambda>c. if c = old then new else [c]) s)"

section \<open>The URL parser of the standard library\<close>

text \<open>
  \<^verbatim>\<open>urllib.parse.urlparse\<close> and \<^verbatim>\<open>parse_qs\<close> are not part of the program; they are
  modelled after CPython 3.11 and 3.12. Four parts of the standard library stay
  parameters:
  \<^item> \<open>check_bracketed\<close>: the validation of a netloc that holds both \<^verbatim>\<open>[\<close> and \<^verbatim>\<open>]\<close>
    (it involves \<^verbatim>\<open>ipaddress.ip_address\<close> and differs between releases); it gives the
    message of the \<^verbatim>\<open>ValueError\<close> it raises, or \<open>None\<close> when it accepts;
  \<^item> \<open>nfkc_rejects\<close>: for a netloc that is not ASCII, whether its NFKC normalisation
    (taken after deleting \<^verbatim>\<open>@\<close>, \<^verbatim>\<open>:\<close>, \<^verbatim>\<open>#\<close> and \<^verbatim>\<open>?\<close>) differs from it and holds
    one of the characters \<^verbatim>\<open>/?#@:\<close>, in which case \<^verbatim>\<open>_checknetloc\<close> raises;
  \<^item> \<open>unquote_escapes\<close>: what \<^verbatim>\<open>unquote\<close> returns for a string that contains \<^verbatim>\<open>%\<close>
    (percent-decoding as UTF-8 with replacement characters);
  \<^item> \<open>lower_unicode\<close>: what \<^verbatim>\<open>str.lower\<close> returns for a string that is not ASCII.
\<close>

record urllib =
  check_bracketed :: "string \<Rightarrow> string option"
  nfkc_rejects :: "string \<Rightarrow> bool"
  unquote_escapes :: "string \<Rightarrow> string"
  lower_unicode :: "string \<Rightarrow> string"

text \<open>\<^verbatim>\<open>s.lower()\<close>.\<close>

definition py_lower :: "urllib \<Rightarrow> string \<Rightarrow> string" where
  "py_lower L s = (if is_ascii s then ascii_lower s else lower_unicode L s)"

record split_result =
  scheme :: string
  netloc :: string
  path :: string
  query :: string
  fragment :: string

record parse_result = split_result +
  params :: string

definition c0_control_or_space :: "char \<Rightarrow> bool" where
  "c0_control_or_space c = ((of_char c :: nat) \<le> 32)"

definition unsafe_url_byte :: "char \<Rightarrow> bool" where
  "unsafe_url_byte c = (c = CHR 0x09 \<or> c = CHR 0x0D \<or> c = CHR 0x0A)"

definition ascii_alpha :: "char \<Rightarrow> bool" where
  "ascii_alpha c =
     (let n = (of_char c :: nat) in (65 \<le> n \<and> n \<le> 90) \<or> (97 \<le> n \<and> n \<le> 122))"

definition scheme_char :: "char \<Rightarrow> bool" where
  "scheme_char c =
     (let n = (of_char c :: nat)
      in ascii_alpha c \<or> (48 \<le> n \<and> n \<le> 57) \<or> c = CHR ''+'' \<or> c = CHR ''-'' \<or> c = CHR ''.'')"

text \<open>
  The first steps of \<^verbatim>\<open>urlsplit\<close>: strip leading C0 control characters and spaces,
  delete every tab, carriage return and line feed.
\<close>

definition clean_url :: "string \<Rightarrow> string" where
  "clean_url url = filter (\<lambda>c. \<not> unsafe_url_byte c) (dropWhile c0_control_or_space url)"

text \<open>
  \<^verbatim>\<open>i = url.find(':')\<close>; with \<^verbatim>\<open>i > 0\<close>, an ASCII letter first and only scheme
  characters before the colon, the scheme is \<^verbatim>\<open>url[:i].lower()\<close> and the rest
  \<^verbatim>\<open>url[i+1:]\<close>. The scheme characters are ASCII, so this \<^verbatim>\<open>lower\<close> is \<open>ascii_lower\<close>.
\<close>

definition split_scheme :: "string \<Rightarrow> string \<times> string" where
  "split_scheme url =
     (let pre = before_first CHR '':'' url
      in if CHR '':'' \<in> set url \<and> pre \<noteq> [] \<and> list_all ascii_alpha (take 1 url)
            \<and> list_all scheme_char pre
         then (ascii_lower pre, after_first CHR '':'' url)
         else ([], url))"

definition netloc_delim :: "char \<Rightarrow> bool" where
  "netloc_delim c = (c = CHR ''/'' \<or> c = CHR ''?'' \<or> c = CHR ''#'')"

text \<open>\<^verbatim>\<open>if url[:2] == '//': netloc, url = _splitnetloc(url, 2)\<close>.\<close>

definition split_netloc :: "string \<Rightarrow> string \<times> string" where
  "split_netloc url =
     (if take 2 url = ''//''
      then (takeWhile (\<lambda>c. \<not> netloc_delim c) (drop 2 url),
            dropWhile (\<lambda>c. \<not> netloc_delim c) (drop 2 url))
      else ([], url))"

text \<open>
  The checks of \<^verbatim>\<open>urlsplit\<close> on the netloc, each as the message of the \<^verbatim>\<open>ValueError\<close>
  it raises. First the brackets: one without the other, or both and the validation
  rejects. Then \<^verbatim>\<open>_checknetloc\<close>, which returns at once for an empty or an ASCII netloc
  and otherwise raises when the NFKC normalisation brings in a delimiter. Nothing between
  the two checks has an effect, so they are taken together.
\<close>

definition check_brackets :: "urllib \<Rightarrow> string \<Rightarrow> string option" where
  "check_brackets L n =
     (if (CHR ''['' \<in> set n \<and> CHR '']'' \<notin> set n) \<or> (CHR '']'' \<in> set n \<and> CHR ''['' \<notin> set n)
      then Some ''Invalid IPv6 URL''
      else if CHR ''['' \<in> set n \<and> CHR '']'' \<in> set n then check_bracketed L n
      else None)"

definition checknetloc :: "urllib \<Rightarrow> string \<Rightarrow> string option" where
  "checknetloc L n =
     (if n = [] \<or> is_ascii n then None
      else if nfkc_rejects L n
      then Some (''netloc '' @ quoted n @ '' contains invalid characters under NFKC normalization'')
      else None)"

definition check_netloc :: "urllib \<Rightarrow> string \<Rightarrow> string option" where
  "check_netloc L n =
     (case check_brackets L n of
        Some msg \<Rightarrow> Some msg
      | None \<Rightarrow> checknetloc L n)"

text \<open>The netloc that \<^verbatim>\<open>urlsplit\<close> finds in a string.\<close>

definition url_netloc :: "string \<Rightarrow> string" where
  "url_netloc url = fst (split_netloc (snd (split_scheme (clean_url url))))"

definition urlsplit :: "urllib \<Rightarrow> string \<Rightarrow> py_error + split_result" where
  "urlsplit L url0 =
     (let (sch, url1) = split_scheme (clean_url url0);
          (nl, url2) = split_netloc url1
      in case check_netloc L nl of
           Some msg \<Rightarrow> Inl (ValueError msg)
         | None \<Rightarrow>
            (let (url3, frag) = (if CHR ''#'' \<in> set url2
                                 then (before_first CHR ''#'' url2, after_first CHR ''#'' url2)
                                 else (url2, []));
                 (url4, qry) = (if CHR ''?'' \<in> set url3
                                then (before_first CHR ''?'' url3, after_first CHR ''?'' url3)
                                else (url3, []))
             in Inr \<lparr>scheme = sch, netloc = nl, path = url4, query = qry, fragment = frag\<rparr>))"

definition uses_params :: "string list" where
  "uses_params = [[], ''ftp'', ''hdl'', ''prospero'', ''http'', ''imap'', ''https'', ''shttp'',
                  ''rtsp'', ''rtsps'', ''rtspu'', ''sip'', ''sips'', ''mms'', ''sftp'', ''tel'']"

text \<open>
  \<^verbatim>\<open>_splitparams\<close>: the parameters start at the first semicolon of the last path
  segment. Without any slash and any semicolon \<^verbatim>\<open>find\<close> gives -1, and the slices are
  \<^verbatim>\<open>url[:-1]\<close> and \<^verbatim>\<open>url[0:]\<close> (\<^verbatim>\<open>urlparse\<close> never calls it so).
\<close>

definition splitparams :: "string \<Rightarrow> string \<times> string" where
  "splitparams url =
     (if CHR ''/'' \<in> set url
      then (let seg = after_last CHR ''/'' url;
                front = take (length url - length seg) url
            in if CHR '';'' \<in> set seg
               then (front @ before_first CHR '';'' seg, after_first CHR '';'' seg)
               else (url, []))
      else if CHR '';'' \<in> set url
      then (before_first CHR '';'' url, after_first CHR '';'' url)
      else (without_last_char url, url))"

definition urlparse :: "urllib \<Rightarrow> string \<Rightarrow> py_error + parse_result" where
  "urlparse L url =
     (case urlsplit L url of
        Inl e \<Rightarrow> Inl e
      | Inr r \<Rightarrow>
         (let (url', prm) = (if scheme r \<in> set uses_params \<and> CHR '';'' \<in> set (path r)
                             then splitparams (path r) else (path r, []))
          in Inr \<lparr>scheme = scheme r, netloc = netloc r, path = url', query = query r,
                  fragment = fragment r, params = prm\<rparr>))"

text \<open>
  \<^verbatim>\<open>unquote\<close> returns a string without \<^verbatim>\<open>%\<close> as it is; \<^verbatim>\<open>unquote_plus\<close> first turns
  every plus sign into a space.
\<close>

definition unquote :: "urllib \<Rightarrow> string \<Rightarrow> string" where
  "unquote L s = (if CHR ''%'' \<notin> set s then s else unquote_escapes L s)"

definition unquote_plus :: "urllib \<Rightarrow> string \<Rightarrow> string" where
  "unquote_plus L s = unquote L (py_replace CHR ''+'' '' '' s)"

text \<open>
  \<^verbatim>\<open>parse_qsl\<close> with its defaults (\<^verbatim>\<open>keep_blank_values=False\<close>,
  \<^verbatim>\<open>strict_parsing=False\<close>, separator \<^verbatim>\<open>&\<close>): an empty field and a field with an
  empty value are dropped.
\<close>

definition parse_qsl :: "urllib \<Rightarrow> string \<Rightarrow> (string \<times> string) list" where
  "parse_qsl L qs =
     (if qs = [] then []
      else concat (map (\<lambda>name_value.
             if name_value \<noteq> [] \<and> after_first CHR ''='' name_value \<noteq> []
             then [(unquote_plus L (before_first CHR ''='' name_value),
                    unquote_plus L (after_first CHR ''='' name_value))]
             else [])
           (py_split CHR ''&'' qs)))"

text \<open>\<^verbatim>\<open>parse_qs\<close> collects the values of each name in a list, in order.\<close>

fun collect_pairs ::
  "(string \<rightharpoonup> string list) \<Rightarrow> (string \<times> string) list \<Rightarrow> (string \<rightharpoonup> string list)" where
  "collect_pairs d [] = d"
| "collect_pairs d ((name, v) # ps) =
     collect_pairs (d(name \<mapsto> (case d name of None \<Rightarrow> [v] | Some vs \<Rightarrow> vs @ [v]))) ps"

definition parse_qs :: "urllib \<Rightarrow> string \<Rightarrow> (string \<rightharpoonup> string list)" where
  "parse_qs L qs = collect_pairs Map.empty (parse_qsl L qs)"

section \<open>Video identifier and classification\<close>

text \<open>
  \<^verbatim>\<open>get_youtube_id\<close>. The result \<open>None\<close> is Python's \<^verbatim>\<open>None\<close>;
  \<^verbatim>\<open>query.get('v', [None])[0]\<close> is the first value of \<^verbatim>\<open>v\<close>.
\<close>

definition get_youtube_id :: "urllib \<Rightarrow> string \<Rightarrow> py_error + string option" where
  "get_youtube_id L url =
     (if py_in ''youtu.be'' url then
        (case py_getitem (py_split CHR ''/'' url) (- 1) of
           Inl e \<Rightarrow> Inl e
         | Inr s \<Rightarrow> Inr (Some s))
      else if py_in ''youtube.com'' url then
        (case urlparse L url of
           Inl e \<Rightarrow> Inl e
         | Inr p \<Rightarrow>
            py_getitem (case parse_qs L (query p) ''v'' of
                          None \<Rightarrow> [None]
                        | Some vs \<Rightarrow> map Some vs) 0)
      else Inr None)"

definition video_domains :: "string list" where
  "video_domains = [''youtube.com'', ''youtu.be'', ''vimeo.com'', ''dailymotion.com'']"

definition image_extensions :: "string list" where
  "image_extensions = [''.jpg'', ''.jpeg'', ''.png'', ''.gif'', ''.bmp'', ''.webp'']"

definition is_video_url :: "urllib \<Rightarrow> string \<Rightarrow> py_error + bool" where
  "is_video_url L url =
     (case urlparse L url of
        Inl e \<Rightarrow> Inl e
      | Inr parsed_url \<Rightarrow>
          Inr (list_ex (\<lambda>domain. py_in domain (netloc parsed_url)) video_domains))"

definition is_image_url :: "urllib \<Rightarrow> string \<Rightarrow> py_error + bool" where
  "is_image_url L url =
     (case urlparse L url of
        Inl e \<Rightarrow> Inl e
      | Inr parsed_url \<Rightarrow>
          Inr (list_ex (\<lambda>ext. endswith (py_lower L (path parsed_url)) ext) image_extensions))"

text \<open>
  The classification is the \<^verbatim>\<open>if\<close>/\<^verbatim>\<open>elif\<close>/\<^verbatim>\<open>else\<close> chain of \<^verbatim>\<open>main\<close>, which
  applies it to a non-empty input; the calls are outside every \<^verbatim>\<open>try\<close>, so an
  exception of the parser leaves \<^verbatim>\<open>main\<close>.
\<close>

datatype kind = Video | Image_kind | Unsupported

definition classify :: "urllib \<Rightarrow> string \<Rightarrow> py_error + kind" where
  "classify L url =
     (case is_video_url L url of
        Inl e \<Rightarrow> Inl e
      | Inr True \<Rightarrow> Inr Video
      | Inr False \<Rightarrow>
         (case is_image_url L url of
            Inl e \<Rightarrow> Inl e
          | Inr True \<Rightarrow> Inr Image_kind
          | Inr False \<Rightarrow> Inr Unsupported))"

text \<open>
  An instance of the library parameters for evaluating the functions on inputs that
  reach none of them: no validation of bracketed hosts (as in CPython before 3.11.4),
  no netloc rejected after normalisation, escapes and letters beyond ASCII left as they
  are.
\<close>

definition plain_urllib :: urllib where
  "plain_urllib = \<lparr>check_bracketed = (\<lambda>n. None), nfkc_rejects = (\<lambda>n. False),
                    unquote_escapes = (\<lambda>s. s), lower_unicode = (\<lambda>s. s)\<rparr>"

section \<open>The classification as the specification words it\<close>

text \<open>
  The specification matches the video domains against the host component of the URL, not
  against the full authority. \<open>spec_host\<close> is that component, as the \<^verbatim>\<open>hostname\<close>
  attribute of the parser computes it before lower-casing: the text after the last
  \<^verbatim>\<open>@\<close>, up to the port, brackets removed. \<open>spec_classify\<close> is the classification with
  the host in the place of the netloc; it is compared with \<open>classify\<close> below.
\<close>

definition spec_host :: "string \<Rightarrow> string" where
  "spec_host n =
     (let hostinfo = after_last CHR ''@'' n
      in if CHR ''['' \<in> set hostinfo
         then before_first CHR '']'' (after_first CHR ''['' hostinfo)
         else before_first CHR '':'' hostinfo)"

definition spec_classify :: "urllib \<Rightarrow> string \<Rightarrow> py_error + kind" where
  "spec_classify L url =
     (case urlparse L url of
        Inl e \<Rightarrow> Inl e
      | Inr p \<Rightarrow>
          Inr (if list_ex (\<lambda>domain. py_in domain (spec_host (netloc p))) video_domains
               then Video
               else if list_ex (\<lambda>ext. endswith (py_lower L (path p)) ext) image_extensions
               then Image_kind
               else Unsupported))"

section \<open>Integers as text and floats\<close>

text \<open>\<^verbatim>\<open>str(n)\<close> for an integer: decimal digits, a minus sign when negative.\<close>

definition digit_char :: "nat \<Rightarrow> char" where
  "digit_char d = ''0123456789'' ! d"

fun str_nat :: "nat \<Rightarrow> string" where
  "str_nat n = (if n < 10 then [digit_char n] else str_nat (n div 10) @ [digit_char (n mod 10)])"

declare str_nat.simps [simp del]

definition str_int :: "int \<Rightarrow> string" where
  "str_int i = (if i < 0 then CHR ''-'' # str_nat (nat (- i)) else str_nat (nat i))"

text \<open>
  A Python \<^verbatim>\<open>float\<close> is an IEEE 754 double; a finite double is represented by the
  rational number it denotes (the sign of zero is not kept). \<open>round_to_double x\<close> is
  the double nearest to a positive rational \<open>x\<close>, ties going to the even significand:
  53 significant bits, and below \<open>2\<^sup>-\<^sup>1\<^sup>0\<^sup>2\<^sup>2\<close> the fixed spacing \<open>2\<^sup>-\<^sup>1\<^sup>0\<^sup>7\<^sup>4\<close> of the
  subnormal numbers. A result of \<open>2\<^sup>1\<^sup>0\<^sup>2\<^sup>4\<close> or more is an overflow.
\<close>

definition pow2 :: "int \<Rightarrow> rat" where
  "pow2 k = (if 0 \<le> k then 2 ^ nat k else 1 / 2 ^ nat (- k))"

definition round_half_even :: "rat \<Rightarrow> int" where
  "round_half_even x =
     (let f = \<lfloor>x\<rfloor>; d = x - of_int f
      in if d < 1 / 2 then f else if 1 / 2 < d then f + 1 else if even f then f else f + 1)"

text \<open>The exponent \<open>e\<close> with \<open>2\<^sup>e \<le> x < 2\<^sup>e\<^sup>+\<^sup>1\<close>, for positive \<open>x\<close>.\<close>

definition ilog2 :: "rat \<Rightarrow> int" where
  "ilog2 x =
     (let (n, d) = quotient_of x; k = bitlen n - bitlen d
      in if x < pow2 k then k - 1 else k)"

definition round_to_double :: "rat \<Rightarrow> rat" where
  "round_to_double x =
     (let u = pow2 (max (ilog2 x - 52) (- 1074))
      in of_int (round_half_even (x / u)) * u)"

definition float_of_rat :: "rat \<Rightarrow> py_error + rat" where
  "float_of_rat x =
     (if x = 0 then Inr 0
      else (let y = round_to_double \<bar>x\<bar>
            in if pow2 1024 \<le> y then Inl OverflowError
               else Inr (if x < 0 then - y else y)))"

text \<open>
  \<^verbatim>\<open>a / b\<close> on two integers: the exact quotient, correctly rounded; \<^verbatim>\<open>ZeroDivisionError\<close>
  for a zero divisor, \<^verbatim>\<open>OverflowError\<close> when the quotient is too large for a float.
\<close>

definition int_truediv :: "int \<Rightarrow> int \<Rightarrow> py_error + rat" where
  "int_truediv a b =
     (if b = 0 then Inl ZeroDivisionError else float_of_rat (of_int a / of_int b))"

fun type_name :: "pyval \<Rightarrow> string" where
  "type_name PNone = ''NoneType''"
| "type_name (PInt i) = ''int''"
| "type_name (PStr s) = ''str''"

fun py_truediv :: "pyval \<Rightarrow> pyval \<Rightarrow> py_error + rat" where
  "py_truediv (PInt a) (PInt b) = int_truediv a b"
| "py_truediv x y =
     Inl (TypeError (''unsupported operand type(s) for /: '' @ quoted (type_name x)
                     @ '' and '' @ quoted (type_name y)))"

text \<open>
  \<^verbatim>\<open>f"{x:.1f}"\<close>: the value of the float rounded to one decimal, an exact tie going
  to the even digit.
\<close>

definition format_1f :: "rat \<Rightarrow> string" where
  "format_1f x =
     (let n = nat (round_half_even (10 * \<bar>x\<bar>))
      in (if x < 0 then ''-'' else []) @ str_nat (n div 10) @ ''.'' @ str_nat (n mod 10))"

text \<open>\<^verbatim>\<open>f"{v}"\<close> for a value.\<close>

fun format_val :: "pyval \<Rightarrow> string" where
  "format_val PNone = ''None''"
| "format_val (PInt i) = str_int i"
| "format_val (PStr s) = s"

section \<open>Formatting of view counts: \<^verbatim>\<open>format_views\<close>\<close>

text \<open>
  \<^verbatim>\<open>main\<close> passes the \<^verbatim>\<open>view_count\<close> field of the metadata. \<^verbatim>\<open>not view_count\<close>
  holds for \<^verbatim>\<open>None\<close>, for zero and for the empty string; comparing another string
  with a number raises \<^verbatim>\<open>TypeError\<close>.
\<close>

definition suffixed :: "int \<Rightarrow> int \<Rightarrow> string \<Rightarrow> py_error + string" where
  "suffixed c divisor sfx =
     (case int_truediv c divisor of Inl e \<Rightarrow> Inl e | Inr q \<Rightarrow> Inr (format_1f q @ sfx))"

fun format_views :: "pyval \<Rightarrow> py_error + string" where
  "format_views PNone = Inr ''No views''"
| "format_views (PStr s) =
     (if s = [] then Inr ''No views''
      else Inl (TypeError (quoted ''<'' @ '' not supported between instances of ''
                           @ quoted ''str'' @ '' and '' @ quoted ''int'')))"
| "format_views (PInt c) =
     (if c = 0 then Inr ''No views''
      else if c < 1000 then Inr (str_int c)
      else if c < 1000000 then suffixed c 1000 ''K''
      else if c < 1000000000 then suffixed c 1000000 ''M''
      else suffixed c 1000000000 ''B'')"

section \<open>Video download: the progress hook and \<^verbatim>\<open>download_video\<close>\<close>

text \<open>
  What the download functions change: \<^verbatim>\<open>st.session_state.progress\<close> (the integer 0 or
  a float, as the rational it denotes) and the files on disk.
\<close>

type_synonym bytes = "char list"

record world =
  progress :: rat
  files :: "string \<rightharpoonup> bytes"

text \<open>
  The hook registered under \<^verbatim>\<open>progress_hooks\<close>. Python evaluates \<^verbatim>\<open>d['status']\<close>,
  then the test \<^verbatim>\<open>'total_bytes' in d\<close>, then the two operands of the division.
\<close>

definition progress_hook :: "pydict \<Rightarrow> world \<Rightarrow> py_error + world" where
  "progress_hook d w =
     (case dict_item d ''status'' of
        Inl e \<Rightarrow> Inl e
      | Inr status \<Rightarrow>
         if status = PStr ''downloading'' then
           (if d ''total_bytes'' \<noteq> None then
              (case dict_item d ''downloaded_bytes'' of
                 Inl e \<Rightarrow> Inl e
               | Inr a \<Rightarrow>
                  (case dict_item d ''total_bytes'' of
                     Inl e \<Rightarrow> Inl e
                   | Inr b \<Rightarrow>
                      (case py_truediv a b of
                         Inl e \<Rightarrow> Inl e
                       | Inr q \<Rightarrow> Inr (w\<lparr>progress := q\<rparr>))))
            else Inr (w\<lparr>progress := 0\<rparr>))
         else Inr w)"

text \<open>
  The backend calls the hook once for each status dictionary, in order; an exception of
  the hook ends the download. \<open>call_hooks\<close> gives the exception, if any, and the state
  reached; \<open>hook_trace\<close> lists the value of \<open>progress\<close> after each call that returned.
\<close>

fun call_hooks :: "pydict list \<Rightarrow> world \<Rightarrow> py_error option \<times> world" where
  "call_hooks [] w = (None, w)"
| "call_hooks (d # ds) w =
     (case progress_hook d w of
        Inl e \<Rightarrow> (Some e, w)
      | Inr w' \<Rightarrow> call_hooks ds w')"

fun hook_trace :: "pydict list \<Rightarrow> world \<Rightarrow> rat list" where
  "hook_trace [] w = []"
| "hook_trace (d # ds) w =
     (case progress_hook d w of
        Inl e \<Rightarrow> []
      | Inr w' \<Rightarrow> progress w' # hook_trace ds w')"

text \<open>
  One run of \<^verbatim>\<open>ydl.extract_info(url, download=True)\<close>: the status dictionaries it
  reports, then the exception it raises or the dictionary it returns.
\<close>

record backend_run =
  callbacks :: "pydict list"
  outcome :: "py_error + pydict"

text \<open>\<^verbatim>\<open>os.path.join\<close> of two components and \<^verbatim>\<open>os.path.basename\<close> (POSIX).\<close>

definition os_path_join :: "string \<Rightarrow> string \<Rightarrow> string" where
  "os_path_join a b =
     (if startswith b ''/'' then b
      else if a = [] \<or> endswith a ''/'' then a @ b
      else a @ ''/'' @ b)"

definition basename :: "string \<Rightarrow> string" where
  "basename p = after_last CHR ''/'' p"

definition download_video ::
  "(string \<Rightarrow> string \<Rightarrow> backend_run) \<Rightarrow> string \<Rightarrow> string \<Rightarrow> world \<Rightarrow> (bool \<times> string) \<times> world" where
  "download_video backend url output_path w =
     (let run = backend url (os_path_join output_path ''%(title)s.%(ext)s'');
          failed = (\<lambda>e. (False, ''Error downloading video: '' @ str_error e))
      in case call_hooks (callbacks run) (w\<lparr>progress := 0\<rparr>) of
           (Some e, w') \<Rightarrow> (failed e, w')
         | (None, w') \<Rightarrow>
            (case outcome run of
               Inl e \<Rightarrow> (failed e, w')
             | Inr info \<Rightarrow>
                (case dict_item info ''title'' of
                   Inl e \<Rightarrow> (failed e, w')
                 | Inr t \<Rightarrow> ((True, ''Successfully downloaded: '' @ format_val t), w'))))"

text \<open>
  The values that \<^verbatim>\<open>progress\<close> takes during \<^verbatim>\<open>download_video\<close>: the 0 assigned
  before the backend starts, then the value after each callback.
\<close>

definition video_progress_values ::
  "(string \<Rightarrow> string \<Rightarrow> backend_run) \<Rightarrow> string \<Rightarrow> string \<Rightarrow> world \<Rightarrow> rat list" where
  "video_progress_values backend url output_path w =
     0 # hook_trace (callbacks (backend url (os_path_join output_path ''%(title)s.%(ext)s'')))
           (w\<lparr>progress := 0\<rparr>)"

section \<open>Image download: \<^verbatim>\<open>download_image\<close>\<close>

text \<open>
  The \<^verbatim>\<open>Content-Length\<close> header as \<^verbatim>\<open>int(response.headers.get('content-length', 0))\<close>
  sees it: absent, a text that \<^verbatim>\<open>int\<close> rejects with \<^verbatim>\<open>ValueError\<close>, or a text that
  \<^verbatim>\<open>int\<close> reads as a number.
\<close>

datatype length_header = NoHeader | NotAnInteger string | IntegerHeader int

fun header_int :: "length_header \<Rightarrow> py_error + int" where
  "header_int NoHeader = Inr 0"
| "header_int (NotAnInteger s) =
     Inl (ValueError (''invalid literal for int() with base 10: '' @ quoted s))"
| "header_int (IntegerHeader n) = Inr n"

text \<open>
  A response of the HTTP client: the message of the error that \<^verbatim>\<open>raise_for_status\<close>
  raises (if any), the header, the chunks that \<^verbatim>\<open>iter_content(block_size)\<close> yields, an
  exception that ends the iteration after them (if any), and \<^verbatim>\<open>response.content\<close>.
\<close>

record response =
  status_error :: "string option"
  content_length :: length_header
  iter_content :: "nat \<Rightarrow> bytes list"
  stream_error :: "py_error option"
  content :: "py_error + bytes"

text \<open>
  The surroundings: \<^verbatim>\<open>requests.get(url, stream=True)\<close>, \<^verbatim>\<open>int(time.time())\<close>, and the
  exception that \<^verbatim>\<open>open(filepath, 'wb')\<close> raises for a path (if any).
\<close>

record environment =
  http_get :: "string \<Rightarrow> py_error + response"
  unix_time :: int
  open_error :: "string \<Rightarrow> py_error option"

text \<open>
  The loop over \<^verbatim>\<open>response.iter_content(block_size)\<close>: \<^verbatim>\<open>downloaded\<close> counts the bytes,
  each chunk is appended to the open file, and \<open>progress\<close> is set after each chunk; the
  division is the one step of the body that can raise, after the write. The loop is given
  with what can be observed of it: the exception that ends it, if any, and the state after
  each pass of its body, in order.
\<close>

fun write_chunks ::
  "int \<Rightarrow> string \<Rightarrow> bytes list \<Rightarrow> int \<Rightarrow> world \<Rightarrow> py_error option \<times> world list" where
  "write_chunks total_size filepath [] downloaded w = (None, [])"
| "write_chunks total_size filepath (data # rest) downloaded w =
     (let downloaded' = downloaded + int (length data);
          w1 = w\<lparr>files := (files w)(filepath \<mapsto> (case files w filepath of
                                                    None \<Rightarrow> data
                                                  | Some old \<Rightarrow> old @ data))\<rparr>
      in case int_truediv downloaded' total_size of
           Inl e \<Rightarrow> (Some e, [w1])
         | Inr q \<Rightarrow>
            (case write_chunks total_size filepath rest downloaded' (w1\<lparr>progress := q\<rparr>) of
               (err, states) \<Rightarrow> (err, w1\<lparr>progress := q\<rparr> # states)))"

definition block_size :: nat where
  "block_size = 1024"

text \<open>
  \<^verbatim>\<open>download_image\<close> returns its pair of a flag and a message; beside it stand the states
  that the session and the disk pass through during the call, in order: the state once
  the file is open (created or emptied), then the state after the single write or after
  each pass of the loop. The call ends in the last of them, or in the state it started
  from when there is none.
\<close>

definition download_image ::
  "urllib \<Rightarrow> environment \<Rightarrow> string \<Rightarrow> string \<Rightarrow> world \<Rightarrow> (bool \<times> string) \<times> world list" where
  "download_image L env url output_path w =
     (let failed = (\<lambda>e. (False, ''Error downloading image: '' @ str_error e))
      in case http_get env url of
           Inl e \<Rightarrow> (failed e, [])
         | Inr response \<Rightarrow>
      (case status_error response of
           Some msg \<Rightarrow> (failed (RaisedError msg), [])
         | None \<Rightarrow>
      (case urlparse L url of
           Inl e \<Rightarrow> (failed e, [])
         | Inr parsed \<Rightarrow>
      (let filename0 = basename (path parsed);
           filename = (if filename0 = [] then ''image_'' @ str_int (unix_time env) @ ''.jpg''
                       else filename0);
           filepath = os_path_join output_path filename
       in case header_int (content_length response) of
           Inl e \<Rightarrow> (failed e, [])
         | Inr total_size \<Rightarrow>
      (case open_error env filepath of
           Some e \<Rightarrow> (failed e, [])
         | None \<Rightarrow>
      (let w0 = w\<lparr>files := (files w)(filepath \<mapsto> [])\<rparr>
       in if total_size = 0 then
            (case content response of
               Inl e \<Rightarrow> (failed e, [w0])
             | Inr body \<Rightarrow>
                ((True, ''Successfully downloaded: '' @ filename),
                 [w0, w0\<lparr>files := (files w0)(filepath \<mapsto> body)\<rparr>]))
          else
            (case write_chunks total_size filepath (iter_content response block_size) 0 w0 of
               (Some e, states) \<Rightarrow> (failed e, w0 # states)
             | (None, states) \<Rightarrow>
                (case stream_error response of
                   Some e \<Rightarrow> (failed e, w0 # states)
                 | None \<Rightarrow> ((True, ''Successfully downloaded: '' @ filename), w0 # states)))))))))"

section \<open>The download buttons of \<^verbatim>\<open>main\<close>\<close>

text \<open>
  After a click \<^verbatim>\<open>main\<close> creates the progress bar at 0, runs the download, sets the
  bar to 1.0 on success and to 0 otherwise, and shows the message.
\<close>

definition finish_download :: "bool \<times> string \<Rightarrow> display \<Rightarrow> display" where
  "finish_download r ui =
     (let ui1 = ui\<lparr>bar := bar ui @ [if fst r then 1 else 0]\<rparr>
      in if fst r then st_success (snd r) ui1 else st_error (snd r) ui1)"

definition click_download_video ::
  "(string \<Rightarrow> string \<Rightarrow> backend_run) \<Rightarrow> string \<Rightarrow> string \<Rightarrow> world \<times> display \<Rightarrow> world \<times> display" where
  "click_download_video backend url video_path s =
     (let ui0 = (snd s)\<lparr>bar := bar (snd s) @ [0]\<rparr>;
          (r, w') = download_video backend url video_path (fst s)
      in (w', finish_download r ui0))"

definition click_download_image ::
  "urllib \<Rightarrow> environment \<Rightarrow> string \<Rightarrow> string \<Rightarrow> world \<times> display \<Rightarrow> world \<times> display" where
  "click_download_image L env url image_path s =
     (let ui0 = (snd s)\<lparr>bar := bar (snd s) @ [0]\<rparr>;
          (r, states) = download_image L env url image_path (fst s)
      in (last (fst s # states), finish_download r ui0))"

section \<open>Well-behaved backends, for stating the progress properties\<close>

text \<open>
  A status dictionary is well reported for a total \<open>t\<close> when it has a status and, in the
  downloading phase, reports the total \<open>t\<close> and a byte count between 0 and \<open>t\<close>.
  \<open>reported\<close> lists the byte counts of the downloading-phase dictionaries, in order.
\<close>

definition downloading :: "pydict \<Rightarrow> bool" where
  "downloading d = (d ''status'' = Some (PStr ''downloading''))"

definition well_reported :: "int \<Rightarrow> pydict \<Rightarrow> bool" where
  "well_reported t d =
     (d ''status'' \<noteq> None
      \<and> (downloading d \<longrightarrow>
           d ''total_bytes'' = Some (PInt t)
           \<and> (\<exists>a. d ''downloaded_bytes'' = Some (PInt a) \<and> 0 \<le> a \<and> a \<le> t)))"

fun reported :: "pydict list \<Rightarrow> int list" where
  "reported [] = []"
| "reported (d # ds) =
     (case (downloading d, d ''downloaded_bytes'') of
        (True, Some (PInt a)) \<Rightarrow> a # reported ds
      | _ \<Rightarrow> reported ds)"

section \<open>Properties of the metadata fetch\<close>

text \<open>
  Claim C7. Whatever exception the extraction backend raises during a metadata fetch,
  \<^verbatim>\<open>get_video_info\<close> catches it: the call returns (nothing propagates), it returns no
  metadata at all, and it reports exactly one message, the fixed prefix followed by the
  text of the exception; the display is otherwise unchanged.
\<close>

theorem get_video_info_backend_failure:
  assumes "extract_info url = Inl e"
  shows "get_video_info extract_info url ui =
           (None, ui\<lparr>errors := errors ui @ [''Error fetching video info: '' @ str_error e]\<rparr>)"
  using assms by (simp add: get_video_info_def extract_fields_def st_error_def)

theorem get_video_info_backend_failure_witness:
  "get_video_info (\<lambda>u. Inl (RaisedError ''Unsupported URL'')) ''https://example.org/clip''
       \<lparr>errors = [], successes = [], warnings = [], bar = []\<rparr>
     = (None, \<lparr>errors = [''Error fetching video info: Unsupported URL''],
               successes = [], warnings = [], bar = []\<rparr>)"
  using get_video_info_backend_failure
    [of "\<lambda>u. Inl (RaisedError ''Unsupported URL'')" "''https://example.org/clip''"
        "RaisedError ''Unsupported URL''" "\<lparr>errors = [], successes = [], warnings = [], bar = []\<rparr>"]
  by simp

text \<open>
  Claim C9. When the backend returns a dictionary, \<^verbatim>\<open>get_video_info\<close> returns metadata and
  reports nothing; each of the four defaults (title, description, uploader, view count)
  is used only when its key is absent from the dictionary, and a key that is present
  passes its value through unchanged, also when that value is \<^verbatim>\<open>None\<close>.
\<close>

theorem get_video_info_defaults_only_when_absent:
  assumes "extract_info url = Inr (Some info)"
  shows "\<exists>m. get_video_info extract_info url ui = (Some m, ui)
           \<and> (info ''title'' = None \<longrightarrow> title m = PStr ''Unknown Title'')
           \<and> (info ''description'' = None \<longrightarrow> description m = PStr ''No description available'')
           \<and> (info ''uploader'' = None \<longrightarrow> uploader m = PStr ''Unknown uploader'')
           \<and> (info ''view_count'' = None \<longrightarrow> view_count m = PInt 0)
           \<and> (\<forall>v. info ''title'' = Some v \<longrightarrow> title m = v)
           \<and> (\<forall>v. info ''description'' = Some v \<longrightarrow> description m = v)
           \<and> (\<forall>v. info ''uploader'' = Some v \<longrightarrow> uploader m = v)
           \<and> (\<forall>v. info ''view_count'' = Some v \<longrightarrow> view_count m = v)
           \<and> (info ''title'' = Some PNone \<longrightarrow> title m = PNone)
           \<and> (info ''description'' = Some PNone \<longrightarrow> description m = PNone)
           \<and> (info ''uploader'' = Some PNone \<longrightarrow> uploader m = PNone)
           \<and> (info ''view_count'' = Some PNone \<longrightarrow> view_count m = PNone)"
  using assms by (simp add: get_video_info_def extract_fields_def dict_get_def)

theorem get_video_info_defaults_only_when_absent_witness:
  "fst (get_video_info (\<lambda>u. Inr (Some Map.empty)) ''https://youtu.be/abc''
          \<lparr>errors = [], successes = [], warnings = [], bar = []\<rparr>)
     = Some \<lparr>title = PStr ''Unknown Title'', thumbnail = PNone, duration = PNone,
             description = PStr ''No description available'',
             uploader = PStr ''Unknown uploader'', view_count = PInt 0\<rparr>
   \<and> fst (get_video_info
            (\<lambda>u. Inr (Some [''title'' \<mapsto> PNone, ''description'' \<mapsto> PNone,
                             ''uploader'' \<mapsto> PNone, ''view_count'' \<mapsto> PNone]))
            ''https://youtu.be/abc''
            \<lparr>errors = [], successes = [], warnings = [], bar = []\<rparr>)
     = Some \<lparr>title = PNone, thumbnail = PNone, duration = PNone,
             description = PNone, uploader = PNone, view_count = PNone\<rparr>"
proof -
  let ?ui = "\<lparr>errors = [], successes = [], warnings = [], bar = []\<rparr>"
  let ?i2 = "[''title'' \<mapsto> PNone, ''description'' \<mapsto> PNone,
              ''uploader'' \<mapsto> PNone, ''view_count'' \<mapsto> PNone] :: pydict"
  obtain m1 where m1: "get_video_info (\<lambda>u. Inr (Some Map.empty)) ''https://youtu.be/abc'' ?ui = (Some m1, ?ui)"
      "title m1 = PStr ''Unknown Title''" "description m1 = PStr ''No description available''"
      "uploader m1 = PStr ''Unknown uploader''" "view_count m1 = PInt 0"
    using get_video_info_defaults_only_when_absent
      [of "\<lambda>u. Inr (Some Map.empty)" "''https://youtu.be/abc''" Map.empty ?ui]
    by auto
  obtain m2 where m2: "get_video_info (\<lambda>u. Inr (Some ?i2)) ''https://youtu.be/abc'' ?ui = (Some m2, ?ui)"
      "title m2 = PNone" "description m2 = PNone" "uploader m2 = PNone" "view_count m2 = PNone"
    using get_video_info_defaults_only_when_absent
      [of "\<lambda>u. Inr (Some ?i2)" "''https://youtu.be/abc''" ?i2 ?ui]
    by auto
  have t1: "thumbnail m1 = PNone" "duration m1 = PNone"
    using m1(1) by (auto simp: get_video_info_def extract_fields_def dict_get_def)
  have t2: "thumbnail m2 = PNone" "duration m2 = PNone"
    using m2(1) by (auto simp: get_video_info_def extract_fields_def dict_get_def)
  show ?thesis
    using m1 m2 t1 t2 by simp
qed

section \<open>Facts about the string operations\<close>

lemma startswith_iff: "startswith s p \<longleftrightarrow> (\<exists>t. s = p @ t)"
  by (induction s p rule: startswith.induct) auto

lemma py_in_iff: "py_in sub s \<longleftrightarrow> (\<exists>a b. s = a @ sub @ b)"
proof (induction s)
  case Nil
  then show ?case by auto
next
  case (Cons c cs)
  show ?case
  proof
    assume "py_in sub (c # cs)"
    then consider "startswith (c # cs) sub" | "py_in sub cs" by auto
    then show "\<exists>a b. c # cs = a @ sub @ b"
    proof cases
      case 1
      then obtain t where "c # cs = sub @ t" by (auto simp: startswith_iff)
      then have "c # cs = [] @ sub @ t" by simp
      then show ?thesis by blast
    next
      case 2
      then obtain a b where "cs = a @ sub @ b" using Cons.IH by blast
      then have "c # cs = (c # a) @ sub @ b" by simp
      then show ?thesis by blast
    qed
  next
    assume "\<exists>a b. c # cs = a @ sub @ b"
    then obtain a b where ab: "c # cs = a @ sub @ b" by blast
    show "py_in sub (c # cs)"
    proof (cases a)
      case Nil
      with ab have "startswith (c # cs) sub" by (auto simp: startswith_iff)
      then show ?thesis by simp
    next
      case (Cons x a')
      with ab have "cs = a' @ sub @ b" by simp
      then have "py_in sub cs" using Cons.IH by blast
      then show ?thesis by simp
    qed
  qed
qed

lemma endswith_iff: "endswith s e \<longleftrightarrow> (\<exists>t. s = t @ e)"
proof -
  have "(\<exists>t. rev s = rev e @ t) \<longleftrightarrow> (\<exists>t. s = t @ e)"
  proof
    assume "\<exists>t. rev s = rev e @ t"
    then obtain t where "rev s = rev e @ t" by blast
    then have "rev (rev s) = rev (rev e @ t)" by simp
    then have "s = rev t @ e" by simp
    then show "\<exists>t. s = t @ e" by blast
  next
    assume "\<exists>t. s = t @ e"
    then obtain t where "s = t @ e" by blast
    then have "rev s = rev e @ rev t" by simp
    then show "\<exists>t. rev s = rev e @ t" by blast
  qed
  then show ?thesis by (simp add: endswith_def startswith_iff)
qed

lemma split_from_nonempty: "split_from sep w s \<noteq> []"
  by (induction s arbitrary: w) auto

lemma after_last_Cons:
  "after_last sep (c # cs)
     = (if sep \<in> set cs then after_last sep cs else if c = sep then cs else c # cs)"
proof (cases "sep \<in> set cs")
  case True
  then obtain x where "x \<in> set (rev cs)" "\<not> x \<noteq> sep" by auto
  then have "takeWhile (\<lambda>c. c \<noteq> sep) (rev cs @ [c]) = takeWhile (\<lambda>c. c \<noteq> sep) (rev cs)"
    by (rule takeWhile_append1)
  with True show ?thesis by (simp add: after_last_def)
next
  case False
  then have "takeWhile (\<lambda>c. c \<noteq> sep) (rev cs @ [c]) = rev cs @ takeWhile (\<lambda>c. c \<noteq> sep) [c]"
    by (intro takeWhile_append2) auto
  with False show ?thesis by (simp add: after_last_def)
qed

lemma last_split_from:
  "last (split_from sep w s) = (if sep \<in> set s then after_last sep s else rev w @ s)"
proof (induction s arbitrary: w)
  case Nil
  then show ?case by simp
next
  case (Cons c cs)
  show ?case
  proof (cases "c = sep")
    case True
    then show ?thesis
      using Cons.IH [of "[]"] by (simp add: split_from_nonempty after_last_Cons)
  next
    case False
    then show ?thesis
      using Cons.IH [of "c # w"] by (simp add: after_last_Cons)
  qed
qed

lemma py_getitem_last: "xs \<noteq> [] \<Longrightarrow> py_getitem xs (- 1) = Inr (last xs)"
  by (cases xs rule: rev_cases) (auto simp: py_getitem_def)

lemma py_getitem_first: "py_getitem (x # xs) 0 = Inr x"
  by (simp add: py_getitem_def)

lemma last_piece: "py_getitem (py_split sep s) (- 1)
                     = Inr (if sep \<in> set s then after_last sep s else s)"
  using last_split_from [of sep "[]" s]
  by (simp add: py_split_def py_getitem_last split_from_nonempty)

lemma after_last_no_sep: "sep \<notin> set (after_last sep s)"
proof
  assume "sep \<in> set (after_last sep s)"
  then have "sep \<in> set (takeWhile (\<lambda>c. c \<noteq> sep) (rev s))" by (simp add: after_last_def)
  then show False by (auto dest: set_takeWhileD)
qed

lemma after_last_decomp:
  assumes "sep \<in> set s"
  shows "\<exists>pre. s = pre @ [sep] @ after_last sep s"
proof -
  let ?P = "\<lambda>c. c \<noteq> sep"
  have ne: "dropWhile ?P (rev s) \<noteq> []" using assms by (simp add: dropWhile_eq_Nil_conv)
  have "hd (dropWhile ?P (rev s)) = sep"
    using hd_dropWhile [OF ne] by simp
  then obtain r where r: "dropWhile ?P (rev s) = sep # r"
    using ne by (cases "dropWhile ?P (rev s)") auto
  have "rev s = takeWhile ?P (rev s) @ sep # r"
    using takeWhile_dropWhile_id [of ?P "rev s"] r by simp
  then have "rev (rev s) = rev (takeWhile ?P (rev s) @ sep # r)" by simp
  then have "s = rev r @ [sep] @ after_last sep s" by (simp add: after_last_def)
  then show ?thesis by blast
qed

section \<open>Properties of the video identifier\<close>

text \<open>
  Claim C10. Every string that contains \<^verbatim>\<open>youtu.be\<close> anywhere takes the short-link branch
  of \<^verbatim>\<open>get_youtube_id\<close>: the call raises nothing and never returns \<^verbatim>\<open>None\<close>; it returns
  the text after the last slash of the string (the whole string when there is no slash),
  which holds no slash and may be empty.
\<close>

theorem get_youtube_id_short_link_never_none:
  assumes "url = a @ ''youtu.be'' @ b"
  shows "\<exists>r. get_youtube_id L url = Inr (Some r)
           \<and> CHR ''/'' \<notin> set r
           \<and> (if CHR ''/'' \<in> set url then \<exists>pre. url = pre @ ''/'' @ r else r = url)"
proof -
  have "py_in ''youtu.be'' url" using assms py_in_iff by blast
  then have g: "get_youtube_id L url
                  = Inr (Some (if CHR ''/'' \<in> set url then after_last CHR ''/'' url else url))"
    by (simp add: get_youtube_id_def last_piece)
  show ?thesis
  proof (cases "CHR ''/'' \<in> set url")
    case True
    then show ?thesis
      using g after_last_no_sep [of "CHR ''/''" url] after_last_decomp [of "CHR ''/''" url]
      by auto
  next
    case False
    then show ?thesis using g by simp
  qed
qed

theorem get_youtube_id_short_link_never_none_witness:
  "get_youtube_id plain_urllib ''https://youtu.be/'' = Inr (Some [])
   \<and> get_youtube_id plain_urllib ''see youtu.be'' = Inr (Some ''see youtu.be'')"
proof -
  have a: "''https://youtu.be/'' = ''https://'' @ ''youtu.be'' @ ''/''" by simp
  have b: "''see youtu.be'' = ''see '' @ ''youtu.be'' @ []" by simp
  obtain r where r: "get_youtube_id plain_urllib ''https://youtu.be/'' = Inr (Some r)"
      "CHR ''/'' \<notin> set r" "\<exists>pre. ''https://youtu.be/'' = pre @ ''/'' @ r"
    using get_youtube_id_short_link_never_none [OF a, of plain_urllib] by auto
  from r(3) obtain pre where "''https://youtu.be/'' = pre @ ''/'' @ r" by blast
  then have "rev ''https://youtu.be/'' = rev r @ ''/'' @ rev pre" by simp
  with r(2) have "r = []" by (cases "rev r") auto
  moreover have "get_youtube_id plain_urllib ''see youtu.be'' = Inr (Some ''see youtu.be'')"
    using get_youtube_id_short_link_never_none [OF b, of plain_urllib] by auto
  ultimately show ?thesis using r(1) by simp
qed

subsection \<open>The parse of a watch URL\<close>

lemma startswith_before_sep:
  "startswith (a @ c # t) sub \<Longrightarrow> c \<notin> set sub \<Longrightarrow> startswith a sub"
proof (induction a sub rule: startswith.induct)
  case (1 s)
  then show ?case by simp
next
  case (2 p ps)
  then show ?case by auto
next
  case (3 x xs p ps)
  then show ?case by auto
qed

lemma py_in_across_sep:
  assumes "py_in sub (a @ c # t)" and "c \<notin> set sub"
  shows "py_in sub a \<or> py_in sub t"
  using assms
proof (induction a)
  case Nil
  then show ?case by (cases sub) auto
next
  case (Cons x xs)
  from Cons.prems(1) consider "startswith ((x # xs) @ c # t) sub" | "py_in sub (xs @ c # t)"
    by auto
  then show ?case
  proof cases
    case 1
    then have "startswith (x # xs) sub" using Cons.prems(2) by (rule startswith_before_sep)
    then show ?thesis by simp
  next
    case 2
    then show ?thesis using Cons by auto
  qed
qed

lemma split_from_until_sep:
  "sep \<notin> set a \<Longrightarrow> split_from sep w (a @ sep # t) = (rev w @ a) # split_from sep [] t"
  by (induction a arbitrary: w) auto

lemma split_from_no_sep: "sep \<notin> set a \<Longrightarrow> split_from sep w a = [rev w @ a]"
  by (induction a arbitrary: w) auto

lemma py_replace_absent: "old \<notin> set s \<Longrightarrow> py_replace old new s = s"
  by (induction s) (auto simp: py_replace_def)

lemma unquote_plus_plain:
  "CHR ''+'' \<notin> set s \<Longrightarrow> CHR ''%'' \<notin> set s \<Longrightarrow> unquote_plus L s = s"
  by (simp add: unquote_plus_def unquote_def py_replace_absent)

lemma collect_pairs_None:
  "collect_pairs d ps k = None \<longleftrightarrow> d k = None \<and> k \<notin> fst ` set ps"
proof (induction ps arbitrary: d)
  case Nil
  then show ?case by simp
next
  case (Cons p ps)
  obtain name v where p: "p = (name, v)" by (cases p)
  let ?d = "d(name \<mapsto> (case d name of None \<Rightarrow> [v] | Some vs \<Rightarrow> vs @ [v]))"
  have "collect_pairs d (p # ps) k = collect_pairs ?d ps k" by (simp add: p)
  also have "\<dots> = None \<longleftrightarrow> ?d k = None \<and> k \<notin> fst ` set ps" by (rule Cons.IH)
  also have "\<dots> \<longleftrightarrow> d k = None \<and> k \<notin> fst ` set (p # ps)" by (auto simp: p)
  finally show ?case .
qed

lemma clean_url_id:
  assumes "\<not> c0_control_or_space c" and "\<forall>x \<in> set (c # s). \<not> unsafe_url_byte x"
  shows "clean_url (c # s) = c # s"
  using assms by (simp add: clean_url_def)

lemma unsafe_url_byte_chars:
  "unsafe_url_byte c \<longleftrightarrow> c \<in> {CHR 0x09, CHR 0x0A, CHR 0x0D}"
  by (auto simp: unsafe_url_byte_def)

text \<open>The parse of a watch URL with any query free of number signs, tabs and line ends.\<close>

lemma urlparse_watch:
  assumes "\<forall>c \<in> set q. c \<notin> {CHR ''#'', CHR 0x09, CHR 0x0A, CHR 0x0D}"
  shows "urlparse L (''https://www.youtube.com/watch?'' @ q)
           = Inr \<lparr>scheme = ''https'', netloc = ''www.youtube.com'', path = ''/watch'',
                  query = q, fragment = [], params = []\<rparr>"
proof -
  have cl: "clean_url (''https://www.youtube.com/watch?'' @ q) = ''https://www.youtube.com/watch?'' @ q"
    using assms by (auto simp: clean_url_def c0_control_or_space_def unsafe_url_byte_def filter_id_conv)
  have sc: "split_scheme (''https://www.youtube.com/watch?'' @ q)
              = (''https'', ''//www.youtube.com/watch?'' @ q)"
    by (simp add: split_scheme_def before_first_def after_first_def ascii_alpha_def
        scheme_char_def ascii_lower_def lower_char_def)
  have nl: "split_netloc (''//www.youtube.com/watch?'' @ q) = (''www.youtube.com'', ''/watch?'' @ q)"
    by (simp add: split_netloc_def netloc_delim_def)
  have ck: "check_netloc L ''www.youtube.com'' = None"
    by (simp add: check_netloc_def check_brackets_def checknetloc_def is_ascii_def)
  have nh: "CHR ''#'' \<notin> set q" using assms by auto
  have sp: "urlsplit L (''https://www.youtube.com/watch?'' @ q)
              = Inr \<lparr>scheme = ''https'', netloc = ''www.youtube.com'', path = ''/watch'',
                     query = q, fragment = []\<rparr>"
    unfolding urlsplit_def cl sc Let_def prod.case nl ck option.case
    using nh by (simp add: before_first_def after_first_def)
  show ?thesis
    unfolding urlparse_def sp by simp
qed

lemma no_short_link_in_watch:
  "py_in ''youtu.be'' (''https://www.youtube.com/watch?'' @ q) \<longleftrightarrow> py_in ''youtu.be'' q"
proof
  assume "py_in ''youtu.be'' (''https://www.youtube.com/watch?'' @ q)"
  then have "py_in ''youtu.be'' (''https://www.youtube.com/watch'' @ CHR ''?'' # q)" by simp
  then have "py_in ''youtu.be'' ''https://www.youtube.com/watch'' \<or> py_in ''youtu.be'' q"
    by (rule py_in_across_sep) simp
  then show "py_in ''youtu.be'' q" by simp
next
  assume "py_in ''youtu.be'' q"
  then obtain a b where "q = a @ ''youtu.be'' @ b" using py_in_iff by blast
  then have "''https://www.youtube.com/watch?'' @ q
               = (''https://www.youtube.com/watch?'' @ a) @ ''youtu.be'' @ b" by simp
  then show "py_in ''youtu.be'' (''https://www.youtube.com/watch?'' @ q)"
    using py_in_iff by blast
qed

lemma watch_is_canonical: "py_in ''youtube.com'' (''https://www.youtube.com/watch?'' @ q)"
proof -
  have "''https://www.youtube.com/watch?'' @ q = ''https://www.'' @ ''youtube.com'' @ (''/watch?'' @ q)"
    by simp
  then show ?thesis using py_in_iff by blast
qed

lemma get_youtube_id_watch:
  assumes "\<forall>c \<in> set q. c \<notin> {CHR ''#'', CHR 0x09, CHR 0x0A, CHR 0x0D}"
    and "\<not> py_in ''youtu.be'' q"
  shows "get_youtube_id L (''https://www.youtube.com/watch?'' @ q)
           = py_getitem (case parse_qs L q ''v'' of None \<Rightarrow> [None] | Some vs \<Rightarrow> map Some vs) 0"
  unfolding get_youtube_id_def no_short_link_in_watch urlparse_watch [OF assms(1)]
  using assms(2) watch_is_canonical [of q] by simp

lemma parse_qsl_v_other:
  assumes "vid \<noteq> []" and "\<forall>c \<in> set vid. c \<notin> {CHR ''&'', CHR ''+'', CHR ''%''}"
  shows "parse_qsl L (''v='' @ vid @ ''&other=1'') = [(''v'', vid), (''other'', ''1'')]"
proof -
  have amp: "CHR ''&'' \<notin> set (''v='' @ vid)" using assms(2) by auto
  have "py_split CHR ''&'' ((''v='' @ vid) @ CHR ''&'' # ''other=1'') = [''v='' @ vid, ''other=1'']"
    unfolding py_split_def using split_from_until_sep [OF amp, of "[]" "''other=1''"]
    by (simp add: split_from_no_sep)
  then have sp: "py_split CHR ''&'' (''v='' @ vid @ ''&other=1'') = [''v='' @ vid, ''other=1'']"
    by simp
  have uq: "unquote_plus L vid = vid" using assms(2) by (intro unquote_plus_plain) auto
  have uv: "unquote_plus L ''v'' = ''v''" "unquote_plus L ''other'' = ''other''"
    "unquote_plus L ''1'' = ''1''"
    by (simp_all add: unquote_plus_plain)
  show ?thesis
    unfolding parse_qsl_def sp
    using assms(1) by (simp add: before_first_def after_first_def uq uv)
qed

lemma after_last_append: "sep \<notin> set t \<Longrightarrow> after_last sep (a @ sep # t) = t"
proof -
  assume t: "sep \<notin> set t"
  have "takeWhile (\<lambda>c. c \<noteq> sep) (rev t @ sep # rev a)
          = rev t @ takeWhile (\<lambda>c. c \<noteq> sep) (sep # rev a)"
    using t by (intro takeWhile_append2) auto
  then show ?thesis by (simp add: after_last_def)
qed

lemma get_youtube_id_short:
  assumes "CHR ''/'' \<notin> set vid"
  shows "get_youtube_id L (''https://youtu.be/'' @ vid) = Inr (Some vid)"
proof -
  have "''https://youtu.be/'' @ vid = ''https://'' @ ''youtu.be'' @ (''/'' @ vid)" by simp
  then have i: "py_in ''youtu.be'' (''https://youtu.be/'' @ vid)" using py_in_iff by blast
  have "after_last CHR ''/'' (''https://youtu.be'' @ CHR ''/'' # vid) = vid"
    using assms by (rule after_last_append)
  then have a: "after_last CHR ''/'' (''https://youtu.be/'' @ vid) = vid" by simp
  have s: "CHR ''/'' \<in> set (''https://youtu.be/'' @ vid)" by simp
  show ?thesis
    unfolding get_youtube_id_def last_piece using i s a by simp
qed

lemma get_youtube_id_canonical:
  assumes "vid \<noteq> []"
    and "\<forall>c \<in> set vid. c \<notin> {CHR ''#'', CHR ''&'', CHR ''+'', CHR ''%'', CHR 0x09, CHR 0x0A, CHR 0x0D}"
    and "\<not> py_in ''youtu.be'' vid"
  shows "get_youtube_id L (''https://www.youtube.com/watch?v='' @ vid @ ''&other=1'') = Inr (Some vid)"
proof -
  let ?q = "''v='' @ vid @ ''&other=1''"
  have q1: "\<forall>c \<in> set ?q. c \<notin> {CHR ''#'', CHR 0x09, CHR 0x0A, CHR 0x0D}"
    using assms(2) by auto
  have "\<not> py_in ''youtu.be'' ((''v='' @ vid) @ CHR ''&'' # ''other=1'')"
  proof
    assume "py_in ''youtu.be'' ((''v='' @ vid) @ CHR ''&'' # ''other=1'')"
    then have "py_in ''youtu.be'' (''v='' @ vid) \<or> py_in ''youtu.be'' ''other=1''"
      by (rule py_in_across_sep) simp
    then show False using assms(3) by simp
  qed
  then have q2: "\<not> py_in ''youtu.be'' ?q" by simp
  have pq: "parse_qsl L ?q = [(''v'', vid), (''other'', ''1'')]"
    using assms(1,2) by (intro parse_qsl_v_other) auto
  have "get_youtube_id L (''https://www.youtube.com/watch?'' @ ?q)
          = py_getitem (case parse_qs L ?q ''v'' of None \<Rightarrow> [None] | Some vs \<Rightarrow> map Some vs) 0"
    using q1 q2 by (rule get_youtube_id_watch)
  also have "\<dots> = Inr (Some vid)"
    unfolding parse_qs_def pq by (simp add: py_getitem_first)
  finally show ?thesis by simp
qed

lemma get_youtube_id_no_v:
  assumes "\<forall>c \<in> set q. c \<notin> {CHR ''#'', CHR 0x09, CHR 0x0A, CHR 0x0D}"
    and "\<not> py_in ''youtu.be'' q"
    and "''v'' \<notin> fst ` set (parse_qsl L q)"
  shows "get_youtube_id L (''https://www.youtube.com/watch?'' @ q) = Inr None"
proof -
  have "parse_qs L q ''v'' = None"
    using assms(3) by (simp add: parse_qs_def collect_pairs_None)
  then show ?thesis
    using get_youtube_id_watch [OF assms(1,2), of L] by (simp add: py_getitem_first)
qed

text \<open>
  Claim C5, as stated, fails: for the id \<^verbatim>\<open>a/b\<close> the short link \<^verbatim>\<open>https://youtu.be/a/b\<close>
  gives \<^verbatim>\<open>b\<close>, the text after the last slash, and not the id.
\<close>

theorem get_youtube_id_short_link_counterexample:
  "get_youtube_id plain_urllib (''https://youtu.be/'' @ ''a/b'') = Inr (Some ''b'')
   \<and> get_youtube_id plain_urllib (''https://youtu.be/'' @ ''a/b'') \<noteq> Inr (Some ''a/b'')"
  by (simp add: get_youtube_id_def py_split_def py_getitem_def)

text \<open>
  Claim C5, amended. \<^verbatim>\<open>get_youtube_id\<close> returns exactly the id
  \<^item> on \<^verbatim>\<open>https://youtu.be/{id}\<close>, for every id without a slash;
  \<^item> on \<^verbatim>\<open>https://www.youtube.com/watch?v={id}&other=1\<close>, for every non-empty id that
    holds none of the characters \<^verbatim>\<open>#\<close>, \<^verbatim>\<open>&\<close>, \<^verbatim>\<open>+\<close>, \<^verbatim>\<open>%\<close>, tab, line feed and carriage
    return and does not contain \<^verbatim>\<open>youtu.be\<close>;
  and it returns \<^verbatim>\<open>None\<close> on \<^verbatim>\<open>https://www.youtube.com/watch?{query}\<close> when the query
  (free of \<^verbatim>\<open>#\<close>, tab, line feed and carriage return, and not containing \<^verbatim>\<open>youtu.be\<close>)
  has no parameter named \<^verbatim>\<open>v\<close> with a non-empty value.
\<close>

theorem get_youtube_id_url_shapes:
  "(CHR ''/'' \<notin> set vid \<longrightarrow>
      get_youtube_id L (''https://youtu.be/'' @ vid) = Inr (Some vid))
   \<and> (vid \<noteq> []
        \<and> (\<forall>c \<in> set vid. c \<notin> {CHR ''#'', CHR ''&'', CHR ''+'', CHR ''%'', CHR 0x09, CHR 0x0A, CHR 0x0D})
        \<and> \<not> py_in ''youtu.be'' vid \<longrightarrow>
      get_youtube_id L (''https://www.youtube.com/watch?v='' @ vid @ ''&other=1'') = Inr (Some vid))
   \<and> ((\<forall>c \<in> set q. c \<notin> {CHR ''#'', CHR 0x09, CHR 0x0A, CHR 0x0D})
        \<and> \<not> py_in ''youtu.be'' q
        \<and> ''v'' \<notin> fst ` set (parse_qsl L q) \<longrightarrow>
      get_youtube_id L (''https://www.youtube.com/watch?'' @ q) = Inr None)"
  using get_youtube_id_short [of vid L] get_youtube_id_canonical [of vid L]
    get_youtube_id_no_v [of q L]
  by blast

theorem get_youtube_id_url_shapes_witness:
  "get_youtube_id plain_urllib ''https://youtu.be/dQw4w9WgXcQ'' = Inr (Some ''dQw4w9WgXcQ'')
   \<and> get_youtube_id plain_urllib ''https://www.youtube.com/watch?v=dQw4w9WgXcQ&other=1''
       = Inr (Some ''dQw4w9WgXcQ'')
   \<and> get_youtube_id plain_urllib ''https://www.youtube.com/watch?other=1'' = Inr None"
proof -
  have h1: "CHR ''/'' \<notin> set ''dQw4w9WgXcQ''" by simp
  have h2: "''dQw4w9WgXcQ'' \<noteq> []
        \<and> (\<forall>c \<in> set ''dQw4w9WgXcQ''. c \<notin> {CHR ''#'', CHR ''&'', CHR ''+'', CHR ''%'', CHR 0x09, CHR 0x0A, CHR 0x0D})
        \<and> \<not> py_in ''youtu.be'' ''dQw4w9WgXcQ''" by simp
  have "parse_qsl plain_urllib ''other=1'' = [(''other'', ''1'')]"
    by (simp add: parse_qsl_def py_split_def before_first_def after_first_def
        unquote_plus_def unquote_def py_replace_def)
  then have h3: "(\<forall>c \<in> set ''other=1''. c \<notin> {CHR ''#'', CHR 0x09, CHR 0x0A, CHR 0x0D})
        \<and> \<not> py_in ''youtu.be'' ''other=1''
        \<and> ''v'' \<notin> fst ` set (parse_qsl plain_urllib ''other=1'')" by simp
  show ?thesis
    using get_youtube_id_url_shapes [of "''dQw4w9WgXcQ''" plain_urllib "''other=1''"] h1 h2 h3
    by simp
qed

section \<open>Properties of the classification\<close>

lemma urlsplit_check:
  "urlsplit L url = Inl e \<longleftrightarrow> (\<exists>msg. check_netloc L (url_netloc url) = Some msg \<and> e = ValueError msg)"
  by (auto simp: urlsplit_def url_netloc_def Let_def split: prod.splits option.splits if_splits)

lemma urlsplit_netloc:
  "urlsplit L url = Inr r \<Longrightarrow> netloc r = url_netloc url"
  by (auto simp: urlsplit_def url_netloc_def Let_def split: prod.splits option.splits if_splits)

lemma urlparse_check:
  "urlparse L url = Inl e \<longleftrightarrow> (\<exists>msg. check_netloc L (url_netloc url) = Some msg \<and> e = ValueError msg)"
proof (cases "urlsplit L url")
  case (Inl e')
  then show ?thesis using urlsplit_check [of L url e'] urlsplit_check [of L url e]
    by (auto simp: urlparse_def)
next
  case (Inr r)
  then have "check_netloc L (url_netloc url) = None"
    using urlsplit_check [of L url] by (cases "check_netloc L (url_netloc url)") auto
  then show ?thesis using Inr by (auto simp: urlparse_def Let_def split: prod.splits)
qed

lemma urlparse_netloc:
  "urlparse L url = Inr p \<Longrightarrow> netloc p = url_netloc url"
  by (auto simp: urlparse_def Let_def urlsplit_netloc split: sum.splits prod.splits)

lemma url_netloc_subset: "set (url_netloc url) \<subseteq> set url"
proof -
  have a: "set (clean_url url) \<subseteq> set url"
    by (auto simp: clean_url_def dest: set_dropWhileD)
  have b: "set (snd (split_scheme s)) \<subseteq> set s" for s
    by (auto simp: split_scheme_def Let_def after_first_def dest: in_set_dropD set_dropWhileD)
  have c: "set (fst (split_netloc s)) \<subseteq> set s" for s
    by (auto simp: split_netloc_def dest: set_takeWhileD in_set_dropD)
  show ?thesis
    unfolding url_netloc_def using a b [of "clean_url url"] c [of "snd (split_scheme (clean_url url))"]
    by blast
qed

lemma classify_cases:
  "classify L url =
     (case urlparse L url of
        Inl e \<Rightarrow> Inl e
      | Inr p \<Rightarrow>
          Inr (if list_ex (\<lambda>domain. py_in domain (netloc p)) video_domains then Video
               else if list_ex (\<lambda>ext. endswith (py_lower L (path p)) ext) image_extensions
               then Image_kind else Unsupported))"
  by (simp add: classify_def is_video_url_def is_image_url_def split: sum.splits bool.splits)

text \<open>
  Claim C3, as stated, fails: on the string \<^verbatim>\<open>http://[\<close> the URL parser raises
  \<^verbatim>\<open>ValueError\<close>, and so does the classification.
\<close>

theorem classify_raises_counterexample:
  "classify plain_urllib ''http://['' = Inl (ValueError ''Invalid IPv6 URL'')"
  by (simp add: classify_def is_video_url_def urlparse_def urlsplit_def clean_url_def
      split_scheme_def split_netloc_def check_netloc_def check_brackets_def checknetloc_def is_ascii_def before_first_def after_first_def
      c0_control_or_space_def unsafe_url_byte_def ascii_alpha_def scheme_char_def
      ascii_lower_def lower_char_def netloc_delim_def)

text \<open>
  Claim C3, amended. On every string the classification returns one of Video, Image
  and Unsupported or raises \<^verbatim>\<open>ValueError\<close>, and nothing else. It raises exactly when the
  parser rejects the netloc it finds in the string, which happens in three cases: one of
  the brackets \<^verbatim>\<open>[\<close> and \<^verbatim>\<open>]\<close> occurs there without the other; both occur and the
  validation of bracketed hosts rejects the netloc; or the netloc is not ASCII and its
  NFKC normalisation brings in one of the characters \<^verbatim>\<open>/?#@:\<close>. An ASCII string that holds
  no bracket at all is always classified.
\<close>

theorem classify_total_unless_netloc_rejected:
  "(check_netloc L (url_netloc url) = None \<longrightarrow> (\<exists>k. classify L url = Inr k))
   \<and> (\<forall>msg. check_netloc L (url_netloc url) = Some msg \<longrightarrow> classify L url = Inl (ValueError msg))
   \<and> (check_netloc L (url_netloc url) \<noteq> None \<longleftrightarrow>
        (CHR ''['' \<in> set (url_netloc url)) \<noteq> (CHR '']'' \<in> set (url_netloc url))
        \<or> (CHR ''['' \<in> set (url_netloc url) \<and> CHR '']'' \<in> set (url_netloc url)
            \<and> check_bracketed L (url_netloc url) \<noteq> None)
        \<or> (\<not> is_ascii (url_netloc url) \<and> nfkc_rejects L (url_netloc url)))
   \<and> (is_ascii url \<and> CHR ''['' \<notin> set url \<and> CHR '']'' \<notin> set url \<longrightarrow> (\<exists>k. classify L url = Inr k))"
proof -
  have none: "\<exists>k. classify L url = Inr k" if "check_netloc L (url_netloc url) = None"
  proof (cases "urlparse L url")
    case (Inl e)
    then show ?thesis using that urlparse_check [of L url e] by simp
  next
    case (Inr p)
    then show ?thesis by (simp add: classify_cases)
  qed
  have some: "classify L url = Inl (ValueError msg)"
    if "check_netloc L (url_netloc url) = Some msg" for msg
  proof -
    have "urlparse L url = Inl (ValueError msg)" using that urlparse_check by blast
    then show ?thesis by (simp add: classify_cases)
  qed
  have plain: "check_netloc L (url_netloc url) = None"
    if h: "is_ascii url \<and> CHR ''['' \<notin> set url \<and> CHR '']'' \<notin> set url"
  proof -
    have "is_ascii (url_netloc url)"
      using h url_netloc_subset [of url] by (auto simp: is_ascii_def list_all_iff)
    then show ?thesis
      using h url_netloc_subset [of url]
      by (auto simp: check_netloc_def check_brackets_def checknetloc_def)
  qed
  have iff: "check_netloc L (url_netloc url) \<noteq> None \<longleftrightarrow>
        (CHR ''['' \<in> set (url_netloc url)) \<noteq> (CHR '']'' \<in> set (url_netloc url))
        \<or> (CHR ''['' \<in> set (url_netloc url) \<and> CHR '']'' \<in> set (url_netloc url)
            \<and> check_bracketed L (url_netloc url) \<noteq> None)
        \<or> (\<not> is_ascii (url_netloc url) \<and> nfkc_rejects L (url_netloc url))"
    by (auto simp: check_netloc_def check_brackets_def checknetloc_def is_ascii_def
        split: option.splits)
  have A: "check_netloc L (url_netloc url) = None \<longrightarrow> (\<exists>k. classify L url = Inr k)"
    using none by blast
  have B: "\<forall>msg. check_netloc L (url_netloc url) = Some msg \<longrightarrow> classify L url = Inl (ValueError msg)"
    using some by blast
  have D: "is_ascii url \<and> CHR ''['' \<notin> set url \<and> CHR '']'' \<notin> set url \<longrightarrow> (\<exists>k. classify L url = Inr k)"
  proof
    assume "is_ascii url \<and> CHR ''['' \<notin> set url \<and> CHR '']'' \<notin> set url"
    then have "check_netloc L (url_netloc url) = None" by (rule plain)
    then show "\<exists>k. classify L url = Inr k" by (rule none)
  qed
  show ?thesis
    by (rule conjI [OF A conjI [OF B conjI [OF iff D]]])
qed

text \<open>
  The witness classifies an ASCII URL, raises on an unmatched bracket, and raises on the
  URL \<^verbatim>\<open>http://a\<close>U+2100\<^verbatim>\<open>b/x.png\<close> (the account-of sign, in UTF-8 the bytes E2 84 80,
  normalises to \<^verbatim>\<open>a/c\<close>) for a library that rejects this netloc.
\<close>

theorem classify_total_unless_netloc_rejected_witness:
  "classify plain_urllib ''http://example.org/a.txt'' = Inr Unsupported
   \<and> classify plain_urllib ''http://a]/'' = Inl (ValueError ''Invalid IPv6 URL'')
   \<and> classify (plain_urllib\<lparr>nfkc_rejects := (\<lambda>n. n = [CHR ''a'', CHR 0xE2, CHR 0x84, CHR 0x80, CHR ''b''])\<rparr>)
        (''http://a'' @ [CHR 0xE2, CHR 0x84, CHR 0x80] @ ''b/x.png'')
       = Inl (ValueError (''netloc '' @ quoted [CHR ''a'', CHR 0xE2, CHR 0x84, CHR 0x80, CHR ''b'']
                          @ '' contains invalid characters under NFKC normalization''))"
proof -
  let ?M = "plain_urllib\<lparr>nfkc_rejects := (\<lambda>n. n = [CHR ''a'', CHR 0xE2, CHR 0x84, CHR 0x80, CHR ''b''])\<rparr>"
  let ?u = "''http://a'' @ [CHR 0xE2, CHR 0x84, CHR 0x80] @ ''b/x.png''"
  have n1: "url_netloc ''http://example.org/a.txt'' = ''example.org''"
    by (simp add: url_netloc_def clean_url_def split_scheme_def split_netloc_def
        before_first_def after_first_def c0_control_or_space_def unsafe_url_byte_def
        ascii_alpha_def scheme_char_def netloc_delim_def)
  have n2: "url_netloc ''http://a]/'' = ''a]''"
    by (simp add: url_netloc_def clean_url_def split_scheme_def split_netloc_def
        before_first_def after_first_def c0_control_or_space_def unsafe_url_byte_def
        ascii_alpha_def scheme_char_def netloc_delim_def)
  have n3: "url_netloc ?u = [CHR ''a'', CHR 0xE2, CHR 0x84, CHR 0x80, CHR ''b'']"
    by (simp add: url_netloc_def clean_url_def split_scheme_def split_netloc_def
        before_first_def after_first_def c0_control_or_space_def unsafe_url_byte_def
        ascii_alpha_def scheme_char_def netloc_delim_def)
  have c1: "check_netloc plain_urllib (url_netloc ''http://example.org/a.txt'') = None"
    unfolding n1 by (simp add: check_netloc_def check_brackets_def checknetloc_def is_ascii_def)
  have c2: "check_netloc plain_urllib (url_netloc ''http://a]/'') = Some ''Invalid IPv6 URL''"
    unfolding n2 by (simp add: check_netloc_def check_brackets_def checknetloc_def is_ascii_def)
  have c3: "check_netloc ?M (url_netloc ?u)
              = Some (''netloc '' @ quoted [CHR ''a'', CHR 0xE2, CHR 0x84, CHR 0x80, CHR ''b'']
                      @ '' contains invalid characters under NFKC normalization'')"
    unfolding n3
    by (simp add: check_netloc_def check_brackets_def checknetloc_def is_ascii_def plain_urllib_def)
  have b: "is_ascii ''http://example.org/a.txt'' \<and> CHR ''['' \<notin> set ''http://example.org/a.txt''
             \<and> CHR '']'' \<notin> set ''http://example.org/a.txt''"
    by (simp add: is_ascii_def)
  obtain k where k: "classify plain_urllib ''http://example.org/a.txt'' = Inr k"
    using classify_total_unless_netloc_rejected [of plain_urllib "''http://example.org/a.txt''"] c1 b
    by blast
  have r: "classify plain_urllib ''http://a]/'' = Inl (ValueError ''Invalid IPv6 URL'')"
    using classify_total_unless_netloc_rejected [of plain_urllib "''http://a]/''"] c2
    by blast
  have r3: "classify ?M ?u
              = Inl (ValueError (''netloc '' @ quoted [CHR ''a'', CHR 0xE2, CHR 0x84, CHR 0x80, CHR ''b'']
                                 @ '' contains invalid characters under NFKC normalization''))"
    using classify_total_unless_netloc_rejected [of ?M ?u] c3
    by blast
  have "classify plain_urllib ''http://example.org/a.txt'' = Inr Unsupported"
    by (simp add: classify_def is_video_url_def is_image_url_def urlparse_def urlsplit_def
      clean_url_def split_scheme_def split_netloc_def check_netloc_def check_brackets_def
      checknetloc_def is_ascii_def before_first_def
      after_first_def c0_control_or_space_def unsafe_url_byte_def ascii_alpha_def
      scheme_char_def py_lower_def ascii_lower_def lower_char_def netloc_delim_def
      uses_params_def video_domains_def image_extensions_def endswith_def)
  then show ?thesis using k r r3 by simp
qed

text \<open>
  Claim C4, as stated, fails: in \<^verbatim>\<open>http://youtube.com@example.org/a.png\<close> the host is
  \<^verbatim>\<open>example.org\<close> and the path ends with \<^verbatim>\<open>.png\<close>, so matching the domains against the
  host gives Image; the program matches them against the whole netloc
  \<^verbatim>\<open>youtube.com@example.org\<close> and answers Video.
\<close>

theorem classify_host_counterexample:
  "classify plain_urllib ''http://youtube.com@example.org/a.png'' = Inr Video
   \<and> spec_classify plain_urllib ''http://youtube.com@example.org/a.png'' = Inr Image_kind"
  by (simp add: classify_def spec_classify_def spec_host_def is_video_url_def is_image_url_def
      urlparse_def urlsplit_def clean_url_def split_scheme_def split_netloc_def check_netloc_def check_brackets_def checknetloc_def is_ascii_def
      before_first_def after_first_def after_last_def c0_control_or_space_def
      unsafe_url_byte_def ascii_alpha_def scheme_char_def py_lower_def ascii_lower_def
      lower_char_def netloc_delim_def uses_params_def video_domains_def image_extensions_def
      endswith_def)

text \<open>
  Claim C4, amended. For every string that the parser accepts, the classification first
  looks for each allowlisted video domain as a substring of the netloc of the URL (the
  full authority: user information, host and port); only when none occurs does it test
  whether the lower-cased path ends with one of the allowlisted image extensions;
  otherwise the URL is Unsupported.
\<close>

theorem classify_netloc_then_extension:
  assumes "urlparse L url = Inr p"
  shows "netloc p = url_netloc url
         \<and> classify L url =
             Inr (if \<exists>d \<in> set video_domains. \<exists>a b. netloc p = a @ d @ b then Video
                  else if \<exists>e \<in> set image_extensions. \<exists>a. py_lower L (path p) = a @ e
                  then Image_kind else Unsupported)"
  using assms
  by (simp add: classify_cases urlparse_netloc list_ex_iff py_in_iff endswith_iff)

theorem classify_netloc_then_extension_witness:
  "classify plain_urllib ''https://m.youtube.com:443/watch?v=abc'' = Inr Video
   \<and> classify plain_urllib ''http://example.org/A.PNG'' = Inr Image_kind"
proof -
  let ?p1 = "\<lparr>scheme = ''https'', netloc = ''m.youtube.com:443'', path = ''/watch'',
              query = ''v=abc'', fragment = [], params = []\<rparr>"
  let ?p2 = "\<lparr>scheme = ''http'', netloc = ''example.org'', path = ''/A.PNG'',
              query = [], fragment = [], params = []\<rparr>"
  have u1: "urlparse plain_urllib ''https://m.youtube.com:443/watch?v=abc'' = Inr ?p1"
    by (simp add: urlparse_def urlsplit_def clean_url_def split_scheme_def split_netloc_def
        check_netloc_def check_brackets_def checknetloc_def is_ascii_def before_first_def after_first_def c0_control_or_space_def
        unsafe_url_byte_def ascii_alpha_def scheme_char_def ascii_lower_def lower_char_def
        netloc_delim_def uses_params_def)
  have u2: "urlparse plain_urllib ''http://example.org/A.PNG'' = Inr ?p2"
    by (simp add: urlparse_def urlsplit_def clean_url_def split_scheme_def split_netloc_def
        check_netloc_def check_brackets_def checknetloc_def is_ascii_def before_first_def after_first_def c0_control_or_space_def
        unsafe_url_byte_def ascii_alpha_def scheme_char_def ascii_lower_def lower_char_def
        netloc_delim_def uses_params_def)
  have d1: "\<exists>d \<in> set video_domains. \<exists>a b. netloc ?p1 = a @ d @ b"
    by (simp add: video_domains_def py_in_iff [symmetric])
  have d2: "\<not> (\<exists>d \<in> set video_domains. \<exists>a b. netloc ?p2 = a @ d @ b)"
    by (simp add: video_domains_def py_in_iff [symmetric])
  have "py_lower plain_urllib ''/A.PNG'' = ''/a.png''" by code_simp
  then have e2: "\<exists>e \<in> set image_extensions. \<exists>a. py_lower plain_urllib (path ?p2) = a @ e"
    by (simp add: image_extensions_def endswith_iff [symmetric] endswith_def)
  show ?thesis
    using classify_netloc_then_extension [OF u1] classify_netloc_then_extension [OF u2] d1 d2 e2
    by (simp del: append.simps)
qed

section \<open>Facts about the rounding of floats\<close>

lemma pow2_powi: "pow2 k = 2 powi k"
  by (cases "0 \<le> k") (simp_all add: pow2_def power_int_def inverse_eq_divide power_one_over)

lemma pow2_pos [simp]: "0 < pow2 k"
  by (simp add: pow2_def)

lemma pow2_sign [simp]: "0 \<le> pow2 k" "pow2 k \<noteq> 0" "\<not> pow2 k < 0" "\<not> pow2 k \<le> 0"
  by (simp_all add: pow2_def not_le)

lemma pow2_add: "pow2 (a + b) = pow2 a * pow2 b"
  by (simp add: pow2_powi power_int_add)

lemma pow2_mono: "a \<le> b \<Longrightarrow> pow2 a \<le> pow2 b"
  by (simp add: pow2_powi power_int_increasing)

lemma pow2_strict_mono: "a < b \<Longrightarrow> pow2 a < pow2 b"
  by (simp add: pow2_powi power_int_strict_increasing)

lemma pow2_nat: "0 \<le> k \<Longrightarrow> pow2 k = of_int (2 ^ nat k)"
  by (simp add: pow2_def)

lemma pow2_ratio: "pow2 a / pow2 b = pow2 (a - b)"
proof -
  have "pow2 a = pow2 (a - b) * pow2 b" using pow2_add [of "a - b" b] by simp
  moreover have "pow2 b \<noteq> 0" by (simp add: pow2_def)
  ultimately show ?thesis by simp
qed

lemma bitlen_pow2_bounds:
  assumes "0 < n"
  shows "pow2 (bitlen n - 1) \<le> of_int n" and "(of_int n :: rat) < pow2 (bitlen n)"
proof -
  have b: "1 \<le> bitlen n"
    using assms bitlen_eq_zero_iff [of n] bitlen_nonneg [of n] by linarith
  have "2 ^ nat (bitlen n - 1) \<le> n" "n < 2 ^ nat (bitlen n)"
    using bitlen_bounds [OF assms] by simp_all
  then have "(of_int (2 ^ nat (bitlen n - 1)) :: rat) \<le> of_int n"
    "(of_int n :: rat) < of_int (2 ^ nat (bitlen n))"
    by (simp_all only: of_int_le_iff of_int_less_iff)
  then show "pow2 (bitlen n - 1) \<le> of_int n" "(of_int n :: rat) < pow2 (bitlen n)"
    using b by (simp_all add: pow2_nat)
qed

lemma round_half_even_of_int [simp]: "round_half_even (of_int m) = m"
  by (simp add: round_half_even_def)

lemma round_half_even_bounds:
  "of_int (round_half_even x) \<le> x + 1 / 2" "x - 1 / 2 \<le> of_int (round_half_even x)"
  "\<lfloor>x\<rfloor> \<le> round_half_even x" "round_half_even x \<le> \<lfloor>x\<rfloor> + 1"
proof -
  have f: "of_int \<lfloor>x\<rfloor> \<le> x" "x < of_int \<lfloor>x\<rfloor> + 1" by linarith+
  show "of_int (round_half_even x) \<le> x + 1 / 2"
    unfolding round_half_even_def Let_def using f
    by (simp split: if_splits del: of_int_floor_le; linarith)
  show "x - 1 / 2 \<le> of_int (round_half_even x)"
    unfolding round_half_even_def Let_def using f
    by (simp split: if_splits del: of_int_floor_le; linarith)
  show "\<lfloor>x\<rfloor> \<le> round_half_even x" "round_half_even x \<le> \<lfloor>x\<rfloor> + 1"
    by (auto simp: round_half_even_def Let_def)
qed

lemma round_half_even_mono:
  assumes "x \<le> y"
  shows "round_half_even x \<le> round_half_even y"
proof (cases "\<lfloor>x\<rfloor> = \<lfloor>y\<rfloor>")
  case True
  then show ?thesis using assms by (auto simp: round_half_even_def Let_def)
next
  case False
  then have "\<lfloor>x\<rfloor> + 1 \<le> \<lfloor>y\<rfloor>" using floor_mono [OF assms] by linarith
  then show ?thesis
    using round_half_even_bounds(4) [of x] round_half_even_bounds(3) [of y] by linarith
qed

lemma ilog2_bounds:
  assumes "0 < x"
  shows "pow2 (ilog2 x) \<le> x" and "x < pow2 (ilog2 x + 1)"
proof -
  obtain n d where q: "quotient_of x = (n, d)" by (cases "quotient_of x")
  have d: "0 < d" using q by (rule quotient_of_denom_pos)
  have x: "x = of_int n / of_int d" using q by (rule quotient_of_div)
  have n: "0 < n" using assms d x by (simp add: zero_less_divide_iff)
  let ?k = "bitlen n - bitlen d"
  note nb = bitlen_pow2_bounds [OF n] and db = bitlen_pow2_bounds [OF d]
  have dpos: "(0::rat) < of_int d" using d by simp
  have lo: "pow2 (?k - 1) < x"
  proof -
    have "pow2 (?k - 1) * of_int d < pow2 (?k - 1) * pow2 (bitlen d)"
      using db(2) by (simp add: mult_strict_left_mono)
    also have "\<dots> = pow2 (bitlen n - 1)" using pow2_add [of "?k - 1" "bitlen d"] by simp
    also have "\<dots> \<le> of_int n" by (rule nb(1))
    finally show ?thesis using dpos by (simp add: x pos_less_divide_eq)
  qed
  have hi: "x < pow2 (?k + 1)"
  proof -
    have "of_int n < pow2 (bitlen n)" by (rule nb(2))
    also have "\<dots> = pow2 (?k + 1) * pow2 (bitlen d - 1)"
      using pow2_add [of "?k + 1" "bitlen d - 1"] by simp
    also have "\<dots> \<le> pow2 (?k + 1) * of_int d" using db(1) by (simp add: mult_left_mono)
    finally show ?thesis using dpos by (simp add: x pos_divide_less_eq)
  qed
  have e: "ilog2 x = (if x < pow2 ?k then ?k - 1 else ?k)"
    by (simp add: ilog2_def q Let_def)
  show "pow2 (ilog2 x) \<le> x" using lo e by (auto simp: not_less)
  show "x < pow2 (ilog2 x + 1)" using hi e by auto
qed

lemma ilog2_mono:
  assumes "0 < x" and "x \<le> y"
  shows "ilog2 x \<le> ilog2 y"
proof (rule ccontr)
  assume "\<not> ilog2 x \<le> ilog2 y"
  then have "ilog2 y + 1 \<le> ilog2 x" by simp
  then have "pow2 (ilog2 y + 1) \<le> pow2 (ilog2 x)" by (rule pow2_mono)
  also have "\<dots> \<le> x" using assms(1) by (rule ilog2_bounds)
  finally show False using ilog2_bounds(2) [of y] assms by simp
qed

lemma round_to_double_below:
  assumes "0 < x" and "x \<le> pow2 e" and "max (ilog2 x - 52) (- 1074) \<le> e"
  shows "round_to_double x \<le> pow2 e"
proof -
  let ?k = "max (ilog2 x - 52) (- 1074)"
  have "x / pow2 ?k \<le> pow2 e / pow2 ?k" using assms(2) by (simp add: divide_right_mono)
  also have "\<dots> = of_int (2 ^ nat (e - ?k))" using assms(3) by (simp add: pow2_ratio pow2_nat)
  finally have "round_half_even (x / pow2 ?k) \<le> round_half_even (of_int (2 ^ nat (e - ?k)))"
    by (rule round_half_even_mono)
  then have "round_half_even (x / pow2 ?k) \<le> 2 ^ nat (e - ?k)"
    by (simp only: round_half_even_of_int)
  then have "(of_int (round_half_even (x / pow2 ?k)) :: rat) \<le> of_int (2 ^ nat (e - ?k))"
    by (simp only: of_int_le_iff)
  then have "of_int (round_half_even (x / pow2 ?k)) * pow2 ?k \<le> of_int (2 ^ nat (e - ?k)) * pow2 ?k"
    by (simp add: mult_right_mono)
  also have "of_int (2 ^ nat (e - ?k)) * pow2 ?k = pow2 e"
    using assms(3) pow2_add [of "e - ?k" ?k] by (simp add: pow2_nat)
  finally show ?thesis by (simp add: round_to_double_def Let_def)
qed

lemma round_to_double_above:
  assumes "0 < x" and "pow2 e \<le> x" and "max (ilog2 x - 52) (- 1074) \<le> e"
  shows "pow2 e \<le> round_to_double x"
proof -
  let ?k = "max (ilog2 x - 52) (- 1074)"
  have "of_int (2 ^ nat (e - ?k)) = pow2 e / pow2 ?k"
    using assms(3) by (simp add: pow2_ratio pow2_nat)
  also have "\<dots> \<le> x / pow2 ?k" using assms(2) by (simp add: divide_right_mono)
  finally have "round_half_even (of_int (2 ^ nat (e - ?k))) \<le> round_half_even (x / pow2 ?k)"
    by (rule round_half_even_mono)
  then have "2 ^ nat (e - ?k) \<le> round_half_even (x / pow2 ?k)"
    by (simp only: round_half_even_of_int)
  then have le: "(of_int (2 ^ nat (e - ?k)) :: rat) \<le> of_int (round_half_even (x / pow2 ?k))"
    by (simp only: of_int_le_iff)
  have "pow2 e = of_int (2 ^ nat (e - ?k)) * pow2 ?k"
    using assms(3) pow2_add [of "e - ?k" ?k] by (simp add: pow2_nat)
  also have "\<dots> \<le> of_int (round_half_even (x / pow2 ?k)) * pow2 ?k"
    using le by (rule mult_right_mono) simp
  finally show ?thesis by (simp add: round_to_double_def Let_def)
qed

lemma round_to_double_mono:
  assumes "0 < x" and "x \<le> y"
  shows "round_to_double x \<le> round_to_double y"
proof -
  let ?kx = "max (ilog2 x - 52) (- 1074)" and ?ky = "max (ilog2 y - 52) (- 1074)"
  have y: "0 < y" using assms by simp
  have il: "ilog2 x \<le> ilog2 y" using assms by (rule ilog2_mono)
  show ?thesis
  proof (cases "?kx = ?ky")
    case True
    have "x / pow2 ?kx \<le> y / pow2 ?kx" using assms(2) by (simp add: divide_right_mono)
    then have "round_half_even (x / pow2 ?kx) \<le> round_half_even (y / pow2 ?kx)"
      by (rule round_half_even_mono)
    then have "(of_int (round_half_even (x / pow2 ?kx)) :: rat) \<le> of_int (round_half_even (y / pow2 ?kx))"
      by (simp only: of_int_le_iff)
    then have "of_int (round_half_even (x / pow2 ?kx)) * pow2 ?kx
                 \<le> of_int (round_half_even (y / pow2 ?kx)) * pow2 ?kx"
      by (simp add: mult_right_mono)
    then show ?thesis unfolding round_to_double_def Let_def True [symmetric] .
  next
    case False
    then have lt: "ilog2 x < ilog2 y" and ky: "?ky = ilog2 y - 52" using il by auto
    let ?e = "ilog2 y"
    have "x < pow2 (ilog2 x + 1)" using assms(1) by (rule ilog2_bounds)
    also have "\<dots> \<le> pow2 ?e" using lt by (intro pow2_mono) simp
    finally have "x \<le> pow2 ?e" by simp
    moreover have "?kx \<le> ?e" using lt ky by linarith
    ultimately have a: "round_to_double x \<le> pow2 ?e" using assms(1) round_to_double_below by blast
    have "pow2 ?e \<le> y" using y by (rule ilog2_bounds)
    moreover have "?ky \<le> ?e" using ky by linarith
    ultimately have b: "pow2 ?e \<le> round_to_double y" using y round_to_double_above by blast
    show ?thesis using a b by simp
  qed
qed

lemma round_to_double_nonneg: "0 \<le> round_to_double x" if "0 < x"
proof -
  have "0 \<le> x / pow2 (max (ilog2 x - 52) (- 1074))" using that by simp
  then have "round_half_even 0 \<le> round_half_even (x / pow2 (max (ilog2 x - 52) (- 1074)))"
    by (rule round_half_even_mono)
  then have "0 \<le> round_half_even (x / pow2 (max (ilog2 x - 52) (- 1074)))"
    using round_half_even_of_int [of 0] by simp
  then show ?thesis by (simp add: round_to_double_def Let_def)
qed


lemma ilog2_one: "ilog2 1 = 0"
  by code_simp

lemma round_to_double_one: "round_to_double 1 = 1"
proof -
  have "(1::rat) / pow2 (- 52) = of_int (2 ^ 52)" by (simp add: pow2_def)
  then have "round_half_even (1 / pow2 (- 52)) = 2 ^ 52" by (simp only: round_half_even_of_int)
  then show ?thesis by (simp add: round_to_double_def ilog2_one Let_def pow2_def)
qed

lemma pow2_zero: "pow2 0 = 1"
  by (simp add: pow2_def)

lemma one_less_pow2_1024: "1 < pow2 1024"
proof -
  have "pow2 0 < pow2 1024" by (rule pow2_strict_mono) simp
  then show ?thesis by (simp only: pow2_zero)
qed

text \<open>A quotient between 0 and 1 is rounded without overflow, and the rounding keeps the order.\<close>

lemma float_of_rat_unit:
  assumes "0 \<le> x" and "x \<le> 1"
  shows "\<exists>q. float_of_rat x = Inr q \<and> 0 \<le> q \<and> q \<le> 1"
proof (cases "x = 0")
  case True
  then show ?thesis by (simp add: float_of_rat_def)
next
  case False
  then have p: "0 < x" using assms by simp
  have le: "round_to_double x \<le> 1"
    using round_to_double_mono [OF p assms(2)] by (simp add: round_to_double_one)
  have "\<not> pow2 1024 \<le> round_to_double x" using le one_less_pow2_1024 by simp
  then show ?thesis
    using p le round_to_double_nonneg [OF p] by (simp add: float_of_rat_def Let_def)
qed

lemma float_of_rat_mono:
  assumes "0 \<le> x" and "x \<le> y" and "float_of_rat x = Inr p" and "float_of_rat y = Inr q"
  shows "p \<le> q"
proof (cases "x = 0")
  case True
  then have "p = 0" using assms(3) by (simp add: float_of_rat_def)
  moreover have "0 \<le> q"
    using assms(4) round_to_double_nonneg [of y] assms(1,2)
    by (cases "y = 0") (auto simp: float_of_rat_def Let_def split: if_splits)
  ultimately show ?thesis by simp
next
  case False
  then have px: "0 < x" and py: "0 < y" using assms by simp_all
  have "p = round_to_double x" "q = round_to_double y"
    using assms(3,4) px py by (auto simp: float_of_rat_def Let_def split: if_splits)
  then show ?thesis using round_to_double_mono [OF px assms(2)] by simp
qed

lemma int_truediv_self: "t \<noteq> 0 \<Longrightarrow> int_truediv t t = Inr 1"
  using one_less_pow2_1024
  by (simp add: int_truediv_def float_of_rat_def round_to_double_one Let_def)

lemma int_truediv_zero: "t \<noteq> 0 \<Longrightarrow> int_truediv 0 t = Inr 0"
  by (simp add: int_truediv_def float_of_rat_def)

lemma int_truediv_unit:
  assumes "0 \<le> a" and "a \<le> t" and "0 < t"
  shows "\<exists>q. int_truediv a t = Inr q \<and> 0 \<le> q \<and> q \<le> 1"
proof -
  have a: "(0::rat) \<le> of_int a / of_int t" using assms by simp
  have b: "(of_int a :: rat) / of_int t \<le> 1" using assms by (simp add: divide_le_eq_1)
  have "int_truediv a t = float_of_rat (of_int a / of_int t)"
    using assms(3) by (simp add: int_truediv_def)
  then show ?thesis using float_of_rat_unit [OF a b] by simp
qed

lemma int_truediv_mono:
  assumes "0 \<le> a" and "a \<le> b" and "0 < t"
    and "int_truediv a t = Inr p" and "int_truediv b t = Inr q"
  shows "p \<le> q"
proof -
  have a: "(0::rat) \<le> of_int a / of_int t" using assms(1,3) by simp
  have b: "(of_int a :: rat) / of_int t \<le> of_int b / of_int t"
    using assms(2,3) by (simp add: divide_right_mono)
  have "float_of_rat (of_int a / of_int t) = Inr p" "float_of_rat (of_int b / of_int t) = Inr q"
    using assms(3-5) by (simp_all add: int_truediv_def)
  then show ?thesis using a b by (rule float_of_rat_mono [rotated 2])
qed


lemma round_to_double_error:
  "\<bar>round_to_double x - x\<bar> \<le> pow2 (max (ilog2 x - 52) (- 1074)) / 2"
proof -
  let ?u = "pow2 (max (ilog2 x - 52) (- 1074))"
  have u: "0 < ?u" by simp
  have "\<bar>of_int (round_half_even (x / ?u)) - x / ?u\<bar> \<le> 1 / 2"
    using round_half_even_bounds(1,2) [of "x / ?u"] by linarith
  then have "\<bar>of_int (round_half_even (x / ?u)) - x / ?u\<bar> * ?u \<le> 1 / 2 * ?u"
    using u by (intro mult_right_mono) simp_all
  moreover have "\<bar>of_int (round_half_even (x / ?u)) - x / ?u\<bar> * ?u
                   = \<bar>of_int (round_half_even (x / ?u)) * ?u - x\<bar>"
  proof -
    have "\<bar>of_int (round_half_even (x / ?u)) - x / ?u\<bar> * ?u
            = \<bar>(of_int (round_half_even (x / ?u)) - x / ?u) * ?u\<bar>"
      using u by (simp add: abs_mult)
    also have "(of_int (round_half_even (x / ?u)) - x / ?u) * ?u
                 = of_int (round_half_even (x / ?u)) * ?u - x"
      by (simp add: left_diff_distrib)
    finally show ?thesis .
  qed
  ultimately show ?thesis by (simp add: round_to_double_def Let_def)
qed

lemma float_of_rat_unit_error:
  assumes "0 \<le> x" and "x \<le> 1" and "float_of_rat x = Inr q"
  shows "\<bar>q - x\<bar> \<le> 1 / 2 ^ 53"
proof (cases "x = 0")
  case True
  then show ?thesis using assms(3) by (simp add: float_of_rat_def)
next
  case False
  then have p: "0 < x" using assms by simp
  have q: "q = round_to_double x"
    using assms(3) p by (auto simp: float_of_rat_def Let_def split: if_splits)
  have "ilog2 x \<le> 0"
  proof (rule ccontr)
    assume "\<not> ilog2 x \<le> 0"
    then have "pow2 1 \<le> pow2 (ilog2 x)" by (intro pow2_mono) simp
    also have "\<dots> \<le> x" using p by (rule ilog2_bounds)
    finally show False using assms(2) by (simp add: pow2_def)
  qed
  then have "pow2 (max (ilog2 x - 52) (- 1074)) \<le> pow2 (- 52)" by (intro pow2_mono) simp
  then have "pow2 (max (ilog2 x - 52) (- 1074)) / 2 \<le> pow2 (- 52) / 2" by simp
  also have "pow2 (- 52) / 2 = 1 / 2 ^ 53" by (simp add: pow2_def)
  finally show ?thesis using round_to_double_error [of x] q by simp
qed

section \<open>Properties of the progress hook\<close>

lemma progress_hook_other_phase:
  assumes "d ''status'' = Some s" and "s \<noteq> PStr ''downloading''"
  shows "progress_hook d w = Inr w"
  using assms by (simp add: progress_hook_def dict_item_def)

lemma progress_hook_no_total:
  assumes "downloading d" and "d ''total_bytes'' = None"
  shows "progress_hook d w = Inr (w\<lparr>progress := 0\<rparr>)"
  using assms by (simp add: progress_hook_def dict_item_def downloading_def)

lemma progress_hook_total:
  assumes "downloading d" and "d ''total_bytes'' = Some (PInt t)"
    and "d ''downloaded_bytes'' = Some (PInt a)"
  shows "progress_hook d w =
           (case int_truediv a t of Inl e \<Rightarrow> Inl e | Inr q \<Rightarrow> Inr (w\<lparr>progress := q\<rparr>))"
  using assms by (simp add: progress_hook_def dict_item_def downloading_def)

text \<open>
  Claim C1, as stated, fails: a downloading-phase callback without \<^verbatim>\<open>total_bytes\<close> does
  not leave the progress at its prior value 0.5, it resets it to 0.
\<close>

theorem progress_hook_unknown_total_counterexample:
  "progress_hook [''status'' \<mapsto> PStr ''downloading'', ''downloaded_bytes'' \<mapsto> PInt 10]
       \<lparr>progress = 1 / 2, files = Map.empty\<rparr>
     = Inr \<lparr>progress = 0, files = Map.empty\<rparr>"
  by (simp add: progress_hook_def dict_item_def)

text \<open>
  Claim C1, amended. The hook changes the progress only for a callback whose status is
  \<^verbatim>\<open>downloading\<close>. For such a callback with integer byte counters and a
  \<^verbatim>\<open>total_bytes\<close> other than zero it sets the progress to the float
  \<^verbatim>\<open>downloaded_bytes / total_bytes\<close>, or raises when that quotient does not fit a float
  (for byte counts from 0 to a positive total the float exists and lies within
  \<open>2\<^sup>-\<^sup>5\<^sup>3\<close> of the exact quotient); when the key \<^verbatim>\<open>total_bytes\<close> is absent it sets
  the progress to 0.
\<close>

theorem progress_hook_phases:
  "(\<forall>s. d ''status'' = Some s \<and> s \<noteq> PStr ''downloading'' \<longrightarrow> progress_hook d w = Inr w)
   \<and> (downloading d \<and> d ''total_bytes'' = Some (PInt t) \<and> d ''downloaded_bytes'' = Some (PInt a)
        \<and> t \<noteq> 0 \<longrightarrow>
       progress_hook d w =
         (case float_of_rat (of_int a / of_int t) of
            Inl e \<Rightarrow> Inl e
          | Inr q \<Rightarrow> Inr (w\<lparr>progress := q\<rparr>)))
   \<and> (downloading d \<and> d ''total_bytes'' = Some (PInt t) \<and> d ''downloaded_bytes'' = Some (PInt a)
        \<and> 0 \<le> a \<and> a \<le> t \<and> 0 < t \<longrightarrow>
       (\<exists>q. progress_hook d w = Inr (w\<lparr>progress := q\<rparr>)
            \<and> \<bar>q - of_int a / of_int t\<bar> \<le> 1 / 2 ^ 53))
   \<and> (downloading d \<and> d ''total_bytes'' = None \<longrightarrow> progress_hook d w = Inr (w\<lparr>progress := 0\<rparr>))"
proof -
  have A: "\<forall>s. d ''status'' = Some s \<and> s \<noteq> PStr ''downloading'' \<longrightarrow> progress_hook d w = Inr w"
    using progress_hook_other_phase by blast
  have B: "downloading d \<and> d ''total_bytes'' = Some (PInt t) \<and> d ''downloaded_bytes'' = Some (PInt a)
        \<and> t \<noteq> 0 \<longrightarrow>
       progress_hook d w =
         (case float_of_rat (of_int a / of_int t) of
            Inl e \<Rightarrow> Inl e
          | Inr q \<Rightarrow> Inr (w\<lparr>progress := q\<rparr>))"
    using progress_hook_total [of d t a w] by (simp add: int_truediv_def)
  have C: "downloading d \<and> d ''total_bytes'' = Some (PInt t) \<and> d ''downloaded_bytes'' = Some (PInt a)
        \<and> 0 \<le> a \<and> a \<le> t \<and> 0 < t \<longrightarrow>
       (\<exists>q. progress_hook d w = Inr (w\<lparr>progress := q\<rparr>)
            \<and> \<bar>q - of_int a / of_int t\<bar> \<le> 1 / 2 ^ 53)"
  proof
    assume h: "downloading d \<and> d ''total_bytes'' = Some (PInt t)
        \<and> d ''downloaded_bytes'' = Some (PInt a) \<and> 0 \<le> a \<and> a \<le> t \<and> 0 < t"
    then obtain q where q: "int_truediv a t = Inr q" using int_truediv_unit [of a t] by blast
    have x: "(0::rat) \<le> of_int a / of_int t" "(of_int a :: rat) / of_int t \<le> 1"
      using h by (simp_all add: divide_le_eq_1)
    have "float_of_rat (of_int a / of_int t) = Inr q" using q h by (simp add: int_truediv_def)
    then have "\<bar>q - of_int a / of_int t\<bar> \<le> 1 / 2 ^ 53"
      using x by (intro float_of_rat_unit_error)
    moreover have "progress_hook d w = Inr (w\<lparr>progress := q\<rparr>)"
      using h q progress_hook_total [of d t a w] by simp
    ultimately show "\<exists>q. progress_hook d w = Inr (w\<lparr>progress := q\<rparr>)
            \<and> \<bar>q - of_int a / of_int t\<bar> \<le> 1 / 2 ^ 53" by blast
  qed
  have D: "downloading d \<and> d ''total_bytes'' = None \<longrightarrow> progress_hook d w = Inr (w\<lparr>progress := 0\<rparr>)"
    using progress_hook_no_total by blast
  show ?thesis by (rule conjI [OF A conjI [OF B conjI [OF C D]]])
qed

lemma half_is_float: "float_of_rat (1 / 2) = Inr (1 / 2)"
  by code_simp

theorem progress_hook_phases_witness:
  "progress_hook [''status'' \<mapsto> PStr ''finished'', ''total_bytes'' \<mapsto> PInt 1000]
       \<lparr>progress = 1 / 2, files = Map.empty\<rparr> = Inr \<lparr>progress = 1 / 2, files = Map.empty\<rparr>
   \<and> progress_hook [''status'' \<mapsto> PStr ''downloading'', ''downloaded_bytes'' \<mapsto> PInt 500,
                     ''total_bytes'' \<mapsto> PInt 1000]
       \<lparr>progress = 0, files = Map.empty\<rparr> = Inr \<lparr>progress = 1 / 2, files = Map.empty\<rparr>
   \<and> progress_hook [''status'' \<mapsto> PStr ''downloading'', ''downloaded_bytes'' \<mapsto> PInt 500]
       \<lparr>progress = 1 / 2, files = Map.empty\<rparr> = Inr \<lparr>progress = 0, files = Map.empty\<rparr>"
proof -
  let ?da = "[''status'' \<mapsto> PStr ''finished'', ''total_bytes'' \<mapsto> PInt 1000] :: pydict"
  let ?db = "[''status'' \<mapsto> PStr ''downloading'', ''downloaded_bytes'' \<mapsto> PInt 500,
              ''total_bytes'' \<mapsto> PInt 1000] :: pydict"
  let ?dc = "[''status'' \<mapsto> PStr ''downloading'', ''downloaded_bytes'' \<mapsto> PInt 500] :: pydict"
  let ?w = "\<lparr>progress = 1 / 2, files = Map.empty\<rparr>"
  let ?z = "\<lparr>progress = 0, files = Map.empty\<rparr>"
  have h1: "?da ''status'' = Some (PStr ''finished'') \<and> PStr ''finished'' \<noteq> PStr ''downloading''"
    by simp
  have h2: "downloading ?db \<and> ?db ''total_bytes'' = Some (PInt 1000)
        \<and> ?db ''downloaded_bytes'' = Some (PInt 500) \<and> (1000::int) \<noteq> 0"
    by (simp add: downloading_def)
  have h3: "downloading ?dc \<and> ?dc ''total_bytes'' = None"
    by (simp add: downloading_def)
  have f: "float_of_rat (of_int 500 / of_int 1000) = Inr (1 / 2)"
    using half_is_float by simp
  have r1: "progress_hook ?da ?w = Inr ?w"
    using progress_hook_phases [of ?da ?w 1000 500] h1 by blast
  have r2: "progress_hook ?db ?z = Inr (?z\<lparr>progress := 1 / 2\<rparr>)"
    using progress_hook_phases [of ?db ?z 1000 500] h2 f by simp
  have r3: "progress_hook ?dc ?w = Inr (?w\<lparr>progress := 0\<rparr>)"
    using progress_hook_phases [of ?dc ?w 1000 500] h3 by blast
  show ?thesis using r1 r2 r3 by simp
qed

section \<open>Properties of the progress sequence\<close>

lemma reported_Cons:
  "reported (d # ds) =
     (if downloading d then
        (case d ''downloaded_bytes'' of Some (PInt a) \<Rightarrow> a # reported ds | _ \<Rightarrow> reported ds)
      else reported ds)"
  by (simp split: option.splits pyval.splits)

lemma hook_trace_well_reported:
  assumes "\<forall>d \<in> set ds. well_reported t d" and "0 < t"
    and "sorted (a0 # reported ds)" and "0 \<le> a0" and "a0 \<le> t"
    and "int_truediv a0 t = Inr (progress w)"
  shows "sorted (progress w # hook_trace ds w)
         \<and> (\<exists>w'. call_hooks ds w = (None, w')
                \<and> progress w' = last (progress w # hook_trace ds w) \<and> files w' = files w)
         \<and> int_truediv (last (a0 # reported ds)) t = Inr (last (progress w # hook_trace ds w))"
  using assms
proof (induction ds arbitrary: w a0)
  case Nil
  then show ?case by simp
next
  case (Cons d ds)
  have wr: "well_reported t d" and rest: "\<forall>d \<in> set ds. well_reported t d"
    using Cons.prems(1) by simp_all
  show ?case
  proof (cases "downloading d")
    case True
    then obtain a where a: "d ''total_bytes'' = Some (PInt t)"
        "d ''downloaded_bytes'' = Some (PInt a)" "0 \<le> a" "a \<le> t"
      using wr by (auto simp: well_reported_def)
    have rep: "reported (d # ds) = a # reported ds" using True a by (simp add: reported_Cons)
    have le: "a0 \<le> a" and so: "sorted (a # reported ds)" using Cons.prems(3) rep by simp_all
    obtain q where q: "int_truediv a t = Inr q"
      using int_truediv_unit [OF a(3) a(4) Cons.prems(2)] by blast
    have pq: "progress w \<le> q"
      using int_truediv_mono [OF Cons.prems(4) le Cons.prems(2) Cons.prems(6) q] .
    let ?w = "w\<lparr>progress := q\<rparr>"
    have ph: "progress_hook d w = Inr ?w"
      using progress_hook_total [OF True a(1,2), of w] q by simp
    have "int_truediv a t = Inr (progress ?w)" using q by simp
    note IH = Cons.IH [OF rest Cons.prems(2) so a(3) a(4) this]
    show ?thesis using IH pq ph rep by auto
  next
    case False
    then obtain s where s: "d ''status'' = Some s" "s \<noteq> PStr ''downloading''"
      using wr by (auto simp: well_reported_def downloading_def)
    have rep: "reported (d # ds) = reported ds" using False by (simp add: reported_Cons)
    have ph: "progress_hook d w = Inr w" using s by (rule progress_hook_other_phase)
    have so: "sorted (a0 # reported ds)" using Cons.prems(3) rep by simp
    note IH = Cons.IH [OF rest Cons.prems(2) so Cons.prems(4) Cons.prems(5) Cons.prems(6)]
    show ?thesis using IH ph rep by auto
  qed
qed

lemma reported_nonneg:
  "\<forall>d \<in> set ds. well_reported t d \<Longrightarrow> \<forall>a \<in> set (reported ds). 0 \<le> a"
proof (induction ds)
  case Nil
  then show ?case by simp
next
  case (Cons d ds)
  then show ?case
    by (auto simp: reported_Cons well_reported_def simp del: reported.simps
        split: option.splits pyval.splits if_splits)
qed

lemma write_chunks_sorted_from:
  assumes "0 < n" and "0 \<le> d" and "int_truediv d n = Inr (progress w)"
    and "write_chunks n fp cs d w = (err, ws)"
  shows "sorted (map progress (w # ws))"
  using assms(2-4)
proof (induction cs arbitrary: d w err ws)
  case Nil
  then show ?case by simp
next
  case (Cons data rest)
  let ?d = "d + int (length data)"
  let ?w1 = "w\<lparr>files := (files w)(fp \<mapsto> (case files w fp of None \<Rightarrow> data | Some old \<Rightarrow> old @ data))\<rparr>"
  show ?case
  proof (cases "int_truediv ?d n")
    case (Inl e)
    then have "ws = [?w1]" using Cons.prems(3) by (simp add: Let_def)
    then show ?thesis by simp
  next
    case (Inr q)
    let ?w2 = "?w1\<lparr>progress := q\<rparr>"
    obtain ws' where step: "write_chunks n fp rest ?d ?w2 = (err, ws')" and ws: "ws = ?w2 # ws'"
      using Cons.prems(3) Inr by (auto simp: Let_def split: prod.splits)
    have d': "0 \<le> ?d" using Cons.prems(1) by simp
    have le: "d \<le> ?d" by simp
    have inv: "int_truediv ?d n = Inr (progress ?w2)" using Inr by simp
    have "sorted (map progress (?w2 # ws'))"
      using Cons.IH [OF d' inv step] .
    moreover have "progress w \<le> q"
      using int_truediv_mono [OF Cons.prems(1) le assms(1) Cons.prems(2) Inr] .
    ultimately show ?thesis unfolding ws by auto
  qed
qed

lemma write_chunks_sorted:
  assumes "0 < n" and "write_chunks n fp cs 0 w = (err, ws)"
  shows "sorted (map progress ws)"
proof (cases cs)
  case Nil
  then show ?thesis using assms(2) by simp
next
  case (Cons data rest)
  let ?d = "0 + int (length data)"
  let ?w1 = "w\<lparr>files := (files w)(fp \<mapsto> (case files w fp of None \<Rightarrow> data | Some old \<Rightarrow> old @ data))\<rparr>"
  show ?thesis
  proof (cases "int_truediv ?d n")
    case (Inl e)
    then have "ws = [?w1]" using assms(2) Cons by (simp add: Let_def)
    then show ?thesis by simp
  next
    case (Inr q)
    let ?w2 = "?w1\<lparr>progress := q\<rparr>"
    obtain ws' where step: "write_chunks n fp rest ?d ?w2 = (err, ws')" and ws: "ws = ?w2 # ws'"
      using assms(2) Cons Inr by (auto simp: Let_def split: prod.splits)
    have d': "0 \<le> ?d" by simp
    have inv: "int_truediv ?d n = Inr (progress ?w2)" using Inr by simp
    show ?thesis unfolding ws using write_chunks_sorted_from [OF assms(1) d' inv step] .
  qed
qed

lemma download_image_sorted:
  assumes "http_get env url = Inr resp" and "content_length resp = IntegerHeader n" and "0 < n"
  shows "sorted (map progress (tl (snd (download_image L env url dir w))))"
proof (cases "status_error resp")
  case (Some msg)
  then show ?thesis using assms(1) by (simp add: download_image_def)
next
  case None
  show ?thesis
  proof (cases "urlparse L url")
    case (Inl e)
    then show ?thesis using assms(1) None by (simp add: download_image_def)
  next
    case (Inr p)
    let ?fname = "if basename (path p) = [] then ''image_'' @ str_int (unix_time env) @ ''.jpg''
                  else basename (path p)"
    let ?fpath = "os_path_join dir ?fname"
    let ?z = "w\<lparr>files := (files w)(?fpath \<mapsto> [])\<rparr>"
    show ?thesis
    proof (cases "open_error env ?fpath")
      case (Some e)
      then show ?thesis using assms(1,2) None Inr by (simp add: download_image_def Let_def)
    next
      case open_ok: None
      obtain err ws where wc: "write_chunks n ?fpath (iter_content resp block_size) 0 ?z = (err, ws)"
        by (cases "write_chunks n ?fpath (iter_content resp block_size) 0 ?z")
      have "sorted (map progress ws)"
        using write_chunks_sorted [OF assms(3) wc] .
      moreover have "snd (download_image L env url dir w) = ?z # ws"
        using assms None Inr open_ok wc
        by (simp add: download_image_def Let_def split: option.splits)
      ultimately show ?thesis by simp
    qed
  qed
qed

lemma download_image_opened:
  assumes "http_get env url = Inr resp" and "status_error resp = None"
    and "urlparse L url = Inr p"
    and "fname = (if basename (path p) = [] then ''image_'' @ str_int (unix_time env) @ ''.jpg''
                  else basename (path p))"
    and "fpath = os_path_join output_path fname"
    and "open_error env fpath = None"
    and "header_int (content_length resp) = Inr n"
  shows "download_image L env url output_path w =
           (let failed = (\<lambda>e. (False, ''Error downloading image: '' @ str_error e));
                w0 = w\<lparr>files := (files w)(fpath \<mapsto> [])\<rparr>
            in if n = 0 then
                 (case content resp of
                    Inl e \<Rightarrow> (failed e, [w0])
                  | Inr body \<Rightarrow> ((True, ''Successfully downloaded: '' @ fname),
                                 [w0, w0\<lparr>files := (files w0)(fpath \<mapsto> body)\<rparr>]))
               else
                 (case write_chunks n fpath (iter_content resp 1024) 0 w0 of
                    (Some e, ws) \<Rightarrow> (failed e, w0 # ws)
                  | (None, ws) \<Rightarrow>
                     (case stream_error resp of
                        Some e \<Rightarrow> (failed e, w0 # ws)
                      | None \<Rightarrow> ((True, ''Successfully downloaded: '' @ fname), w0 # ws))))"
  using assms(1-3,6,7) unfolding download_image_def assms(4,5) block_size_def
  by (simp add: Let_def)

lemma quarter_ratio_is_float:
  "int_truediv 250 1000 = Inr (1 / 4)"
  by code_simp

lemma half_ratio_is_float: "int_truediv 500 1000 = Inr (1 / 2)"
  by code_simp

text \<open>
  Claim C2, as stated, fails: a backend that reports 500 and then 250 of 1000 bytes, both
  within the allowed range, and then succeeds makes the progress go 0, 0.5, 0.25: it
  decreases, and it ends below 1.0 although the download succeeded.
\<close>

theorem progress_not_monotone_counterexample:
  "fst (fst (download_video
     (\<lambda>u tmpl. \<lparr>callbacks = [[''status'' \<mapsto> PStr ''downloading'', ''downloaded_bytes'' \<mapsto> PInt 500,
                               ''total_bytes'' \<mapsto> PInt 1000],
                              [''status'' \<mapsto> PStr ''downloading'', ''downloaded_bytes'' \<mapsto> PInt 250,
                               ''total_bytes'' \<mapsto> PInt 1000]],
                 outcome = Inr [''title'' \<mapsto> PStr ''clip'']\<rparr>)
     ''https://youtu.be/abc'' ''/tmp'' \<lparr>progress = 0, files = Map.empty\<rparr>))
   \<and> video_progress_values
     (\<lambda>u tmpl. \<lparr>callbacks = [[''status'' \<mapsto> PStr ''downloading'', ''downloaded_bytes'' \<mapsto> PInt 500,
                               ''total_bytes'' \<mapsto> PInt 1000],
                              [''status'' \<mapsto> PStr ''downloading'', ''downloaded_bytes'' \<mapsto> PInt 250,
                               ''total_bytes'' \<mapsto> PInt 1000]],
                 outcome = Inr [''title'' \<mapsto> PStr ''clip'']\<rparr>)
     ''https://youtu.be/abc'' ''/tmp'' \<lparr>progress = 0, files = Map.empty\<rparr>
     = [0, 1 / 2, 1 / 4]
   \<and> \<not> sorted [0 :: rat, 1 / 2, 1 / 4]
   \<and> (1 / 4 :: rat) \<noteq> 1"
proof -
  let ?B = "\<lambda>u tmpl. \<lparr>callbacks = [[''status'' \<mapsto> PStr ''downloading'', ''downloaded_bytes'' \<mapsto> PInt 500,
                               ''total_bytes'' \<mapsto> PInt 1000],
                              [''status'' \<mapsto> PStr ''downloading'', ''downloaded_bytes'' \<mapsto> PInt 250,
                               ''total_bytes'' \<mapsto> PInt 1000]],
                 outcome = Inr [''title'' \<mapsto> PStr ''clip'']\<rparr>"
  let ?w = "\<lparr>progress = 0, files = Map.empty\<rparr>"
  have a: "fst (fst (download_video ?B ''https://youtu.be/abc'' ''/tmp'' ?w))"
    by (simp add: download_video_def progress_hook_def dict_item_def
        quarter_ratio_is_float half_ratio_is_float)
  have b: "video_progress_values ?B ''https://youtu.be/abc'' ''/tmp'' ?w
             = [0, 1 / 2, 1 / 4]"
    by (simp add: video_progress_values_def progress_hook_def dict_item_def
        quarter_ratio_is_float half_ratio_is_float)
  have "\<not> ((1::rat) / 2 \<le> 1 / 4)" by simp
  then have c: "\<not> sorted [0 :: rat, 1 / 2, 1 / 4]"
    by (simp only: sorted2 simp_thms)
  have d: "(1 / 4 :: rat) \<noteq> 1"
    by simp
  show ?thesis using a b c d by blast
qed

text \<open>
  Claim C2, amended. Let the backend report, in every downloading-phase callback, one
  fixed positive total and a byte count between 0 and that total, and let these byte
  counts never decrease from one callback to the next. Then the progress values observed
  during \<^verbatim>\<open>download_video\<close> never decrease, no callback raises, and the progress at
  the end is the last observed value; it is exactly 1.0 when the last downloading-phase
  callback reports the whole total. During \<^verbatim>\<open>download_image\<close> of a response with a
  positive \<^verbatim>\<open>Content-Length\<close> the progress never decreases either from the state after
  one pass of the loop to the state after the next.
\<close>

theorem progress_monotone_for_monotone_reports:
  assumes "\<forall>d \<in> set (callbacks (backend url (os_path_join output_path ''%(title)s.%(ext)s''))).
             well_reported t d"
    and "0 < t"
    and "sorted (reported (callbacks (backend url (os_path_join output_path ''%(title)s.%(ext)s''))))"
  shows "sorted (video_progress_values backend url output_path w)
         \<and> length (video_progress_values backend url output_path w)
             = Suc (length (callbacks (backend url (os_path_join output_path ''%(title)s.%(ext)s''))))
         \<and> progress (snd (download_video backend url output_path w))
             = last (video_progress_values backend url output_path w)
         \<and> (reported (callbacks (backend url (os_path_join output_path ''%(title)s.%(ext)s''))) \<noteq> []
              \<and> last (reported (callbacks (backend url (os_path_join output_path ''%(title)s.%(ext)s'')))) = t
              \<longrightarrow> last (video_progress_values backend url output_path w) = 1)
         \<and> (\<forall>L env image_url image_path v resp n.
               http_get env image_url = Inr resp \<and> content_length resp = IntegerHeader n \<and> 0 < n
               \<longrightarrow> sorted (map progress (tl (snd (download_image L env image_url image_path v)))))"
proof -
  let ?run = "backend url (os_path_join output_path ''%(title)s.%(ext)s'')"
  let ?ds = "callbacks ?run"
  let ?w = "w\<lparr>progress := 0\<rparr>"
  have s0: "sorted (0 # reported ?ds)"
    using assms(3) reported_nonneg [OF assms(1)] by simp
  have z: "int_truediv 0 t = Inr (progress ?w)"
    using assms(2) by (simp add: int_truediv_zero)
  note H = hook_trace_well_reported [OF assms(1) assms(2) s0 _ _ z]
  have H1: "sorted (progress ?w # hook_trace ?ds ?w)"
    and H2: "\<exists>w'. call_hooks ?ds ?w = (None, w')
                \<and> progress w' = last (progress ?w # hook_trace ?ds ?w) \<and> files w' = files ?w"
    and H3: "int_truediv (last (0 # reported ?ds)) t = Inr (last (progress ?w # hook_trace ?ds ?w))"
    using H assms(2) by simp_all
  have v: "video_progress_values backend url output_path w = progress ?w # hook_trace ?ds ?w"
    by (simp add: video_progress_values_def)
  have A: "sorted (video_progress_values backend url output_path w)"
    using H1 v by simp
  obtain w' where w': "call_hooks ?ds ?w = (None, w')"
      "progress w' = last (progress ?w # hook_trace ?ds ?w)"
    using H2 by blast
  have "snd (download_video backend url output_path w) = w'"
    using w'(1) by (simp add: download_video_def Let_def split: sum.splits)
  then have B: "progress (snd (download_video backend url output_path w))
                  = last (video_progress_values backend url output_path w)"
    using w'(2) v by simp
  have len: "length (hook_trace ds u) = length ds" if "call_hooks ds u = (None, u')" for ds u u'
    using that by (induction ds arbitrary: u) (auto split: sum.splits)
  have L: "length (video_progress_values backend url output_path w) = Suc (length ?ds)"
    using len [OF w'(1)] v by simp
  have C: "reported ?ds \<noteq> [] \<and> last (reported ?ds) = t
             \<longrightarrow> last (video_progress_values backend url output_path w) = 1"
  proof
    assume h: "reported ?ds \<noteq> [] \<and> last (reported ?ds) = t"
    then have "int_truediv t t = Inr (last (progress ?w # hook_trace ?ds ?w))"
      using H3 by simp
    then show "last (video_progress_values backend url output_path w) = 1"
      using assms(2) v by (simp add: int_truediv_self)
  qed
  have D: "\<forall>L env image_url image_path v resp n.
               http_get env image_url = Inr resp \<and> content_length resp = IntegerHeader n \<and> 0 < n
               \<longrightarrow> sorted (map progress (tl (snd (download_image L env image_url image_path v))))"
    using download_image_sorted by blast
  show ?thesis by (rule conjI [OF A conjI [OF L conjI [OF B conjI [OF C D]]]])
qed

theorem progress_monotone_for_monotone_reports_witness:
  "sorted (video_progress_values
     (\<lambda>u tmpl. \<lparr>callbacks = [[''status'' \<mapsto> PStr ''downloading'', ''downloaded_bytes'' \<mapsto> PInt 500,
                               ''total_bytes'' \<mapsto> PInt 1000],
                              [''status'' \<mapsto> PStr ''downloading'', ''downloaded_bytes'' \<mapsto> PInt 1000,
                               ''total_bytes'' \<mapsto> PInt 1000],
                              [''status'' \<mapsto> PStr ''finished'', ''total_bytes'' \<mapsto> PInt 1000]],
                 outcome = Inr [''title'' \<mapsto> PStr ''clip'']\<rparr>)
     ''https://youtu.be/abc'' ''/tmp'' \<lparr>progress = 1 / 2, files = Map.empty\<rparr>)
   \<and> progress (snd (download_video
     (\<lambda>u tmpl. \<lparr>callbacks = [[''status'' \<mapsto> PStr ''downloading'', ''downloaded_bytes'' \<mapsto> PInt 500,
                               ''total_bytes'' \<mapsto> PInt 1000],
                              [''status'' \<mapsto> PStr ''downloading'', ''downloaded_bytes'' \<mapsto> PInt 1000,
                               ''total_bytes'' \<mapsto> PInt 1000],
                              [''status'' \<mapsto> PStr ''finished'', ''total_bytes'' \<mapsto> PInt 1000]],
                 outcome = Inr [''title'' \<mapsto> PStr ''clip'']\<rparr>)
     ''https://youtu.be/abc'' ''/tmp'' \<lparr>progress = 1 / 2, files = Map.empty\<rparr>)) = 1
   \<and> map progress (tl (snd (download_image plain_urllib
          \<lparr>http_get = (\<lambda>u. Inr \<lparr>status_error = None, content_length = IntegerHeader 2048,
                iter_content = (\<lambda>k. [replicate 1024 CHR ''a'', replicate 1024 CHR ''b'']),
                stream_error = None,
                content = Inr (replicate 1024 CHR ''a'' @ replicate 1024 CHR ''b'')\<rparr>),
           unix_time = 1700000000, open_error = (\<lambda>f. None)\<rparr>
          ''http://example.org/a/b/photo.png'' ''/tmp'' \<lparr>progress = 1, files = Map.empty\<rparr>)))
     = [1 / 2, 1]
   \<and> sorted (map progress (tl (snd (download_image plain_urllib
          \<lparr>http_get = (\<lambda>u. Inr \<lparr>status_error = None, content_length = IntegerHeader 2048,
                iter_content = (\<lambda>k. [replicate 1024 CHR ''a'', replicate 1024 CHR ''b'']),
                stream_error = None,
                content = Inr (replicate 1024 CHR ''a'' @ replicate 1024 CHR ''b'')\<rparr>),
           unix_time = 1700000000, open_error = (\<lambda>f. None)\<rparr>
          ''http://example.org/a/b/photo.png'' ''/tmp'' \<lparr>progress = 1, files = Map.empty\<rparr>))))"
proof -
  let ?ds = "[[''status'' \<mapsto> PStr ''downloading'', ''downloaded_bytes'' \<mapsto> PInt 500,
               ''total_bytes'' \<mapsto> PInt 1000],
              [''status'' \<mapsto> PStr ''downloading'', ''downloaded_bytes'' \<mapsto> PInt 1000,
               ''total_bytes'' \<mapsto> PInt 1000],
              [''status'' \<mapsto> PStr ''finished'', ''total_bytes'' \<mapsto> PInt 1000]] :: pydict list"
  let ?B = "\<lambda>(u::string) (tmpl::string). \<lparr>callbacks = ?ds, outcome = Inr [''title'' \<mapsto> PStr ''clip'']\<rparr>"
  let ?w = "\<lparr>progress = 1 / 2, files = Map.empty\<rparr>"
  let ?resp = "\<lparr>status_error = None, content_length = IntegerHeader 2048,
                iter_content = (\<lambda>k::nat. [replicate 1024 CHR ''a'', replicate 1024 CHR ''b'']),
                stream_error = None,
                content = Inr (replicate 1024 CHR ''a'' @ replicate 1024 CHR ''b'')\<rparr>"
  let ?env = "\<lparr>http_get = (\<lambda>u::string. Inr ?resp), unix_time = 1700000000,
               open_error = (\<lambda>f::string. None)\<rparr>"
  let ?u = "''http://example.org/a/b/photo.png''"
  let ?v = "\<lparr>progress = 1, files = Map.empty\<rparr>"
  let ?p = "\<lparr>scheme = ''http'', netloc = ''example.org'', path = ''/a/b/photo.png'', query = [],
            fragment = [], params = []\<rparr>"
  have r: "reported ?ds = [500, 1000]"
    by (simp add: downloading_def)
  have h1: "\<forall>d \<in> set (callbacks (?B ''https://youtu.be/abc'' (os_path_join ''/tmp'' ''%(title)s.%(ext)s''))).
              well_reported 1000 d"
    by (simp add: well_reported_def downloading_def)
  have h2: "(0::int) < 1000" by simp
  have h3: "sorted (reported (callbacks (?B ''https://youtu.be/abc'' (os_path_join ''/tmp'' ''%(title)s.%(ext)s''))))"
    using r by simp
  have h4: "reported (callbacks (?B ''https://youtu.be/abc'' (os_path_join ''/tmp'' ''%(title)s.%(ext)s''))) \<noteq> []
      \<and> last (reported (callbacks (?B ''https://youtu.be/abc'' (os_path_join ''/tmp'' ''%(title)s.%(ext)s'')))) = 1000"
    using r by simp
  note T = progress_monotone_for_monotone_reports
      [of ?B "''https://youtu.be/abc''" "''/tmp''" 1000 ?w, OF h1 h2 h3]
  have video: "sorted (video_progress_values ?B ''https://youtu.be/abc'' ''/tmp'' ?w)
               \<and> progress (snd (download_video ?B ''https://youtu.be/abc'' ''/tmp'' ?w)) = 1"
    using T h4 by simp
  have h5: "http_get ?env ?u = Inr ?resp \<and> content_length ?resp = IntegerHeader 2048 \<and> (0::int) < 2048"
    by simp
  have image: "sorted (map progress (tl (snd (download_image plain_urllib ?env ?u ''/tmp'' ?v))))"
    using T h5 by blast
  have u: "urlparse plain_urllib ?u = Inr ?p"
    by (simp add: urlparse_def urlsplit_def clean_url_def split_scheme_def split_netloc_def
        check_netloc_def check_brackets_def checknetloc_def is_ascii_def before_first_def
        after_first_def c0_control_or_space_def unsafe_url_byte_def ascii_alpha_def
        scheme_char_def ascii_lower_def lower_char_def netloc_delim_def uses_params_def)
  have fn: "''photo.png''
              = (if basename (path ?p) = [] then ''image_'' @ str_int (unix_time ?env) @ ''.jpg''
                 else basename (path ?p))"
    by (simp add: basename_def after_last_def)
  have fp: "''/tmp/photo.png'' = os_path_join ''/tmp'' ''photo.png''"
    by (simp add: os_path_join_def endswith_def)
  have g: "http_get ?env ?u = Inr ?resp" by simp
  have s: "status_error ?resp = None" by simp
  have o: "open_error ?env ''/tmp/photo.png'' = None" by simp
  have h: "header_int (content_length ?resp) = Inr 2048" by simp
  have q1: "int_truediv 1024 2048 = Inr (1 / 2)" by code_simp
  have q2: "int_truediv 2048 2048 = Inr 1" by (simp add: int_truediv_self)
  have run: "map progress (tl (snd (download_image plain_urllib ?env ?u ''/tmp'' ?v))) = [1 / 2, 1]"
    unfolding download_image_opened [OF g s u fn fp o h, of ?v]
    by (simp add: Let_def q1 q2)
  show ?thesis
    using video run image by simp
qed

section \<open>Properties of the image download\<close>

lemma write_chunks_states:
  assumes "write_chunks n fp cs d w = (err, ws)" and "files w fp = Some old"
  shows "length ws \<le> length cs
         \<and> (\<forall>i < length ws.
               files (ws ! i) = (files w)(fp \<mapsto> old @ concat (take (Suc i) cs))
               \<and> (case int_truediv (d + int (length (concat (take (Suc i) cs)))) n of
                    Inr q \<Rightarrow> progress (ws ! i) = q
                  | Inl e \<Rightarrow> err = Some e \<and> Suc i = length ws
                             \<and> progress (ws ! i) = progress ((w # ws) ! i)))
         \<and> ((\<forall>i < length ws. \<exists>q. int_truediv (d + int (length (concat (take (Suc i) cs)))) n = Inr q)
              \<longrightarrow> err = None \<and> length ws = length cs)"
  using assms
proof (induction cs arbitrary: d w old err ws)
  case Nil
  then show ?case by simp
next
  case (Cons data rest)
  let ?d = "d + int (length data)"
  let ?w1 = "w\<lparr>files := (files w)(fp \<mapsto> old @ data)\<rparr>"
  let ?q = "\<lambda>i cs d. int_truediv (d + int (length (concat (take (Suc i) cs)))) n"
  have q0: "?q 0 (data # rest) d = int_truediv ?d n" by simp
  have qS: "?q (Suc j) (data # rest) d = ?q j rest ?d" for j by (simp add: add.assoc)
  show ?case
  proof (cases "int_truediv ?d n")
    case (Inl e)
    then have "err = Some e" "ws = [?w1]" using Cons.prems by (simp_all add: Let_def)
    then show ?thesis using Inl by simp
  next
    case (Inr q)
    let ?w2 = "?w1\<lparr>progress := q\<rparr>"
    obtain ws' where step: "write_chunks n fp rest ?d ?w2 = (err, ws')" and ws: "ws = ?w2 # ws'"
      using Cons.prems Inr by (auto simp: Let_def split: prod.splits)
    have f: "files ?w2 fp = Some (old @ data)" by simp
    note IH = Cons.IH [OF step f]
    have P1: "length ws \<le> length (data # rest)" using IH ws by simp
    have P2: "files (ws ! i) = (files w)(fp \<mapsto> old @ concat (take (Suc i) (data # rest)))
               \<and> (case ?q i (data # rest) d of
                    Inr q \<Rightarrow> progress (ws ! i) = q
                  | Inl e \<Rightarrow> err = Some e \<and> Suc i = length ws
                             \<and> progress (ws ! i) = progress ((w # ws) ! i))"
      if i: "i < length ws" for i
    proof (cases i)
      case 0
      show ?thesis unfolding 0 q0 using Inr ws by simp
    next
      case (Suc j)
      then have j: "j < length ws'" using i ws by simp
      have a: "files (ws' ! j) = (files ?w2)(fp \<mapsto> (old @ data) @ concat (take (Suc j) rest))"
        and b: "(case ?q j rest ?d of
                    Inr q \<Rightarrow> progress (ws' ! j) = q
                  | Inl e \<Rightarrow> err = Some e \<and> Suc j = length ws'
                             \<and> progress (ws' ! j) = progress ((?w2 # ws') ! j))"
        using IH j by blast+
      have "files (ws ! i) = (files w)(fp \<mapsto> old @ concat (take (Suc i) (data # rest)))"
        using a ws Suc by simp
      moreover have "(case ?q i (data # rest) d of
                    Inr q \<Rightarrow> progress (ws ! i) = q
                  | Inl e \<Rightarrow> err = Some e \<and> Suc i = length ws
                             \<and> progress (ws ! i) = progress ((w # ws) ! i))"
        unfolding Suc qS using b ws by (simp split: sum.splits)
      ultimately show ?thesis by simp
    qed
    have P3: "err = None \<and> length ws = length (data # rest)"
      if all: "\<forall>i < length ws. \<exists>q. ?q i (data # rest) d = Inr q"
    proof -
      have "\<exists>q. ?q j rest ?d = Inr q" if "j < length ws'" for j
      proof -
        have "Suc j < length ws" using that ws by simp
        then have "\<exists>q. ?q (Suc j) (data # rest) d = Inr q" using all by blast
        then show ?thesis unfolding qS .
      qed
      then show ?thesis using IH ws by simp
    qed
    show ?thesis using P1 P2 P3 by blast
  qed
qed

lemma write_chunks_within:
  assumes "0 < n" and "0 \<le> d" and "d + int (length (concat cs)) \<le> n"
  shows "\<exists>ws. write_chunks n fp cs d w = (None, ws) \<and> length ws = length cs
              \<and> (\<forall>s \<in> set ws. 0 \<le> progress s \<and> progress s \<le> 1)"
  using assms(2,3)
proof (induction cs arbitrary: d w)
  case Nil
  then show ?case by simp
next
  case (Cons data rest)
  let ?d = "d + int (length data)"
  have a: "0 \<le> ?d" "?d \<le> n" using Cons.prems by simp_all
  obtain q where q: "int_truediv ?d n = Inr q" "0 \<le> q" "q \<le> 1"
    using int_truediv_unit [OF a assms(1)] by blast
  let ?w2 = "(w\<lparr>files := (files w)(fp \<mapsto> (case files w fp of None \<Rightarrow> data
                                                 | Some old \<Rightarrow> old @ data))\<rparr>)\<lparr>progress := q\<rparr>"
  have "?d + int (length (concat rest)) \<le> n" using Cons.prems by simp
  from Cons.IH [OF a(1) this, of ?w2]
  obtain ws where ws: "write_chunks n fp rest ?d ?w2 = (None, ws)" "length ws = length rest"
      "\<forall>s \<in> set ws. 0 \<le> progress s \<and> progress s \<le> 1"
    by blast
  have "write_chunks n fp (data # rest) d w = (None, ?w2 # ws)"
    using q(1) ws(1) by (simp add: Let_def)
  then show ?case using ws q by simp
qed

text \<open>
  Claim C6, as stated, fails: a download without \<^verbatim>\<open>Content-Length\<close> that starts at
  progress 0 and succeeds passes through two states, the file opened and the body written,
  both with progress 0; \<^verbatim>\<open>download_image\<close> never sets it to 1.
\<close>

lemma str_int_timestamp: "str_int 1700000000 = ''1700000000''"
  by (simp add: str_int_def str_nat.simps digit_char_def)

theorem download_image_no_length_counterexample:
  "download_image plain_urllib
     \<lparr>http_get = (\<lambda>u. Inr \<lparr>status_error = None, content_length = NoHeader,
                            iter_content = (\<lambda>k. []), stream_error = None,
                            content = Inr ''abc''\<rparr>),
      unix_time = 1700000000, open_error = (\<lambda>f. None)\<rparr>
     ''http://example.org/'' ''/tmp'' \<lparr>progress = 0, files = Map.empty\<rparr>
   = ((True, ''Successfully downloaded: image_1700000000.jpg''),
      [\<lparr>progress = 0, files = [''/tmp/image_1700000000.jpg'' \<mapsto> []]\<rparr>,
       \<lparr>progress = 0, files = [''/tmp/image_1700000000.jpg'' \<mapsto> ''abc'']\<rparr>])"
proof -
  let ?resp = "\<lparr>status_error = None, content_length = NoHeader, iter_content = (\<lambda>k. []),
               stream_error = None, content = Inr ''abc''\<rparr>"
  let ?env = "\<lparr>http_get = (\<lambda>u. Inr ?resp), unix_time = 1700000000, open_error = (\<lambda>f. None)\<rparr>"
  let ?p = "\<lparr>scheme = ''http'', netloc = ''example.org'', path = ''/'', query = [],
            fragment = [], params = []\<rparr>"
  have u: "urlparse plain_urllib ''http://example.org/'' = Inr ?p"
    by (simp add: urlparse_def urlsplit_def clean_url_def split_scheme_def split_netloc_def
        check_netloc_def check_brackets_def checknetloc_def is_ascii_def before_first_def
        after_first_def c0_control_or_space_def unsafe_url_byte_def ascii_alpha_def
        scheme_char_def ascii_lower_def lower_char_def netloc_delim_def uses_params_def)
  have fn: "''image_1700000000.jpg''
              = (if basename (path ?p) = [] then ''image_'' @ str_int (unix_time ?env) @ ''.jpg''
                 else basename (path ?p))"
    by (simp add: basename_def after_last_def str_int_timestamp)
  have fp: "''/tmp/image_1700000000.jpg'' = os_path_join ''/tmp'' ''image_1700000000.jpg''"
    by (simp add: os_path_join_def endswith_def)
  have g: "http_get ?env ''http://example.org/'' = Inr ?resp" by simp
  have s: "status_error ?resp = None" by simp
  have o: "open_error ?env ''/tmp/image_1700000000.jpg'' = None" by simp
  have h: "header_int (content_length ?resp) = Inr 0" by simp
  note r = download_image_opened [OF g s u fn fp o h, of "\<lparr>progress = 0, files = Map.empty\<rparr>"]
  have "download_image plain_urllib ?env ''http://example.org/'' ''/tmp''
          \<lparr>progress = 0, files = Map.empty\<rparr>
        = ((True, ''Successfully downloaded: '' @ ''image_1700000000.jpg''),
           [\<lparr>progress = 0, files = [''/tmp/image_1700000000.jpg'' \<mapsto> []]\<rparr>,
            \<lparr>progress = 0, files = [''/tmp/image_1700000000.jpg'' \<mapsto> ''abc'']\<rparr>])"
    unfolding r by (simp add: Let_def)
  then show ?thesis by simp
qed

text \<open>
  Claim C6, amended. Let the request succeed and the file open, and let \<open>states\<close> be the
  states of the call. With a \<^verbatim>\<open>Content-Length\<close> other than zero the chunks of
  \<^verbatim>\<open>iter_content(1024)\<close> are written to the destination file one after the other: the
  first state has the file opened empty, and each chunk handled adds one state, in which
  the file holds the bytes written so far and the progress is the float
  bytes-written / content-length, whether or not the call succeeds in the end. Only a
  division that raises stops the loop early: its chunk is written, the progress keeps its
  value and the call fails with that exception. When no division raises, every chunk is
  handled and the call succeeds unless the stream ends with an exception. When the length
  is positive and the stream carries no more than the announced bytes, no division raises,
  every progress set is between 0 and 1, and the progress at the end is exactly 1.0 when
  the stream carries all of them. With the header absent or zero the whole body is written
  in one operation and \<^verbatim>\<open>download_image\<close> leaves the progress at its prior value; the
  progress bar of \<^verbatim>\<open>main\<close> goes from 0 to 1 around the successful call.
\<close>

theorem download_image_progress:
  assumes "http_get env url = Inr resp" and "status_error resp = None"
    and "urlparse L url = Inr p"
    and "fname = (if basename (path p) = [] then ''image_'' @ str_int (unix_time env) @ ''.jpg''
                  else basename (path p))"
    and "fpath = os_path_join output_path fname"
    and "open_error env fpath = None"
    and "download_image L env url output_path w = (r, states)"
  shows "(\<forall>n. content_length resp = IntegerHeader n \<and> n \<noteq> 0 \<longrightarrow>
            states \<noteq> [] \<and> hd states = w\<lparr>files := (files w)(fpath \<mapsto> [])\<rparr>
            \<and> length states \<le> Suc (length (iter_content resp 1024))
            \<and> (\<forall>i. Suc i < length states \<longrightarrow>
                  files (states ! Suc i)
                    = (files w)(fpath \<mapsto> concat (take (Suc i) (iter_content resp 1024)))
                  \<and> (case int_truediv (int (length (concat (take (Suc i) (iter_content resp 1024))))) n of
                       Inr q \<Rightarrow> progress (states ! Suc i) = q
                     | Inl e \<Rightarrow> progress (states ! Suc i) = progress (states ! i)
                                \<and> Suc (Suc i) = length states
                                \<and> r = (False, ''Error downloading image: '' @ str_error e)))
            \<and> ((\<forall>i. Suc i < length states \<longrightarrow>
                   (\<exists>q. int_truediv (int (length (concat (take (Suc i) (iter_content resp 1024))))) n
                          = Inr q))
                 \<longrightarrow> length states = Suc (length (iter_content resp 1024))
                     \<and> r = (case stream_error resp of
                              None \<Rightarrow> (True, ''Successfully downloaded: '' @ fname)
                            | Some e \<Rightarrow> (False, ''Error downloading image: '' @ str_error e))))
         \<and> (\<forall>n. content_length resp = IntegerHeader n \<and> 0 < n
              \<and> int (length (concat (iter_content resp 1024))) \<le> n \<longrightarrow>
            length states = Suc (length (iter_content resp 1024))
            \<and> r = (case stream_error resp of
                     None \<Rightarrow> (True, ''Successfully downloaded: '' @ fname)
                   | Some e \<Rightarrow> (False, ''Error downloading image: '' @ str_error e))
            \<and> (\<forall>s \<in> set (tl states). 0 \<le> progress s \<and> progress s \<le> 1)
            \<and> (iter_content resp 1024 \<noteq> [] \<and> int (length (concat (iter_content resp 1024))) = n
                 \<longrightarrow> progress (last states) = 1))
         \<and> (\<forall>body. (content_length resp = NoHeader \<or> content_length resp = IntegerHeader 0)
              \<and> content resp = Inr body \<longrightarrow>
            r = (True, ''Successfully downloaded: '' @ fname)
            \<and> states = [w\<lparr>files := (files w)(fpath \<mapsto> [])\<rparr>, w\<lparr>files := (files w)(fpath \<mapsto> body)\<rparr>]
            \<and> progress (last states) = progress w
            \<and> fst (click_download_image L env url output_path (w, ui))
                = w\<lparr>files := (files w)(fpath \<mapsto> body)\<rparr>
            \<and> bar (snd (click_download_image L env url output_path (w, ui))) = bar ui @ [0, 1])"
proof -
  let ?cs = "iter_content resp 1024"
  let ?z = "w\<lparr>files := (files w)(fpath \<mapsto> [])\<rparr>"
  let ?ok = "(True, ''Successfully downloaded: '' @ fname)"
  let ?failed = "\<lambda>e. (False, ''Error downloading image: '' @ str_error e)"
  let ?ratio = "\<lambda>i. int_truediv (int (length (concat (take (Suc i) ?cs)))) n"
  note opened = download_image_opened [OF assms(1-6), of _ w]
  have f0: "files ?z fpath = Some []" by simp
  have A: "states \<noteq> [] \<and> hd states = ?z \<and> length states \<le> Suc (length ?cs)
           \<and> (\<forall>i. Suc i < length states \<longrightarrow>
                  files (states ! Suc i) = (files w)(fpath \<mapsto> concat (take (Suc i) ?cs))
                  \<and> (case int_truediv (int (length (concat (take (Suc i) ?cs)))) n of
                       Inr q \<Rightarrow> progress (states ! Suc i) = q
                     | Inl e \<Rightarrow> progress (states ! Suc i) = progress (states ! i)
                                \<and> Suc (Suc i) = length states \<and> r = ?failed e))
           \<and> ((\<forall>i. Suc i < length states \<longrightarrow>
                   (\<exists>q. int_truediv (int (length (concat (take (Suc i) ?cs)))) n = Inr q))
                 \<longrightarrow> length states = Suc (length ?cs)
                     \<and> r = (case stream_error resp of None \<Rightarrow> ?ok | Some e \<Rightarrow> ?failed e))"
    if h: "content_length resp = IntegerHeader n \<and> n \<noteq> 0" for n
  proof -
    have hi: "header_int (content_length resp) = Inr n" using h by simp
    obtain err ws where wc: "write_chunks n fpath ?cs 0 ?z = (err, ws)"
      by (cases "write_chunks n fpath ?cs 0 ?z")
    have run: "(case err of
                   Some e \<Rightarrow> (?failed e, ?z # ws)
                 | None \<Rightarrow> (case stream_error resp of
                              Some e \<Rightarrow> (?failed e, ?z # ws)
                            | None \<Rightarrow> (?ok, ?z # ws))) = (r, states)"
      using h wc assms(7) unfolding opened [OF hi]
      by (cases err; cases "stream_error resp"; simp add: Let_def)
    have st: "states = ?z # ws" using run by (auto split: option.splits)
    have rf: "r = ?failed e" if "err = Some e" for e using run that by auto
    have rn: "r = (case stream_error resp of None \<Rightarrow> ?ok | Some e \<Rightarrow> ?failed e)" if "err = None"
      using run that by (auto split: option.splits)
    have S1: "length ws \<le> length ?cs"
      and S2: "\<forall>i < length ws.
               files (ws ! i) = (files ?z)(fpath \<mapsto> [] @ concat (take (Suc i) ?cs))
               \<and> (case int_truediv (0 + int (length (concat (take (Suc i) ?cs)))) n of
                    Inr q \<Rightarrow> progress (ws ! i) = q
                  | Inl e \<Rightarrow> err = Some e \<and> Suc i = length ws
                             \<and> progress (ws ! i) = progress ((?z # ws) ! i))"
      and S3: "(\<forall>i < length ws. \<exists>q. int_truediv (0 + int (length (concat (take (Suc i) ?cs)))) n = Inr q)
              \<longrightarrow> err = None \<and> length ws = length ?cs"
      using write_chunks_states [OF wc f0] by blast+
    have a1: "states \<noteq> [] \<and> hd states = ?z \<and> length states \<le> Suc (length ?cs)"
      using st S1 by simp
    have a2: "files (states ! Suc i) = (files w)(fpath \<mapsto> concat (take (Suc i) ?cs))
                  \<and> (case int_truediv (int (length (concat (take (Suc i) ?cs)))) n of
                       Inr q \<Rightarrow> progress (states ! Suc i) = q
                     | Inl e \<Rightarrow> progress (states ! Suc i) = progress (states ! i)
                                \<and> Suc (Suc i) = length states \<and> r = ?failed e)"
      if "Suc i < length states" for i
    proof -
      have i: "i < length ws" using that st by simp
      have x: "files (ws ! i) = (files ?z)(fpath \<mapsto> [] @ concat (take (Suc i) ?cs))"
        and y: "(case int_truediv (0 + int (length (concat (take (Suc i) ?cs)))) n of
                    Inr q \<Rightarrow> progress (ws ! i) = q
                  | Inl e \<Rightarrow> err = Some e \<and> Suc i = length ws
                             \<and> progress (ws ! i) = progress ((?z # ws) ! i))"
        using S2 i by blast+
      have "files (states ! Suc i) = (files w)(fpath \<mapsto> concat (take (Suc i) ?cs))"
        using x st by simp
      moreover have "(case int_truediv (int (length (concat (take (Suc i) ?cs)))) n of
                       Inr q \<Rightarrow> progress (states ! Suc i) = q
                     | Inl e \<Rightarrow> progress (states ! Suc i) = progress (states ! i)
                                \<and> Suc (Suc i) = length states \<and> r = ?failed e)"
        using y st rf by (auto split: sum.splits)
      ultimately show ?thesis by simp
    qed
    have a3: "length states = Suc (length ?cs)
                \<and> r = (case stream_error resp of None \<Rightarrow> ?ok | Some e \<Rightarrow> ?failed e)"
      if all: "\<forall>i. Suc i < length states \<longrightarrow>
                 (\<exists>q. int_truediv (int (length (concat (take (Suc i) ?cs)))) n = Inr q)"
    proof -
      have "\<forall>i < length ws. \<exists>q. int_truediv (0 + int (length (concat (take (Suc i) ?cs)))) n = Inr q"
        using all st by simp
      then have "err = None \<and> length ws = length ?cs" using S3 by blast
      then show ?thesis using st rn by simp
    qed
    show ?thesis using a1 a2 a3 by blast
  qed
  have B: "length states = Suc (length ?cs)
            \<and> r = (case stream_error resp of None \<Rightarrow> ?ok | Some e \<Rightarrow> ?failed e)
            \<and> (\<forall>s \<in> set (tl states). 0 \<le> progress s \<and> progress s \<le> 1)
            \<and> (?cs \<noteq> [] \<and> int (length (concat ?cs)) = n \<longrightarrow> progress (last states) = 1)"
    if h: "content_length resp = IntegerHeader n \<and> 0 < n \<and> int (length (concat ?cs)) \<le> n" for n
  proof -
    have hi: "header_int (content_length resp) = Inr n" using h by simp
    have n: "0 < n" using h by simp
    have "0 + int (length (concat ?cs)) \<le> n" using h by simp
    then obtain ws where wc: "write_chunks n fpath ?cs 0 ?z = (None, ws)"
      and len: "length ws = length ?cs"
      and unit: "\<forall>s \<in> set ws. 0 \<le> progress s \<and> progress s \<le> 1"
      using write_chunks_within [OF n, of 0 ?cs fpath ?z] by auto
    have run: "(case stream_error resp of
                  Some e \<Rightarrow> (?failed e, ?z # ws)
                | None \<Rightarrow> (?ok, ?z # ws)) = (r, states)"
      using h wc assms(7) unfolding opened [OF hi]
      by (cases "stream_error resp"; simp add: Let_def)
    have st: "states = ?z # ws" using run by (auto split: option.splits)
    have rn: "r = (case stream_error resp of None \<Rightarrow> ?ok | Some e \<Rightarrow> ?failed e)"
      using run by (auto split: option.splits)
    have "progress (last states) = 1" if c: "?cs \<noteq> [] \<and> int (length (concat ?cs)) = n"
    proof -
      let ?i = "length ws - 1"
      have ne: "ws \<noteq> []" using c len by auto
      then have i: "?i < length ws" by simp
      have tk: "take (Suc ?i) ?cs = ?cs" using len ne by simp
      have "(case int_truediv (0 + int (length (concat (take (Suc ?i) ?cs)))) n of
                    Inr q \<Rightarrow> progress (ws ! ?i) = q
                  | Inl e \<Rightarrow> None = Some e \<and> Suc ?i = length ws
                             \<and> progress (ws ! ?i) = progress ((?z # ws) ! ?i))"
        using write_chunks_states [OF wc f0] i by blast
      then have "progress (ws ! ?i) = 1"
        unfolding tk using c n by (simp add: int_truediv_self)
      then show ?thesis using st ne by (simp add: last_conv_nth)
    qed
    then show ?thesis using st len rn unit by simp
  qed
  have C: "r = ?ok
            \<and> states = [?z, w\<lparr>files := (files w)(fpath \<mapsto> body)\<rparr>]
            \<and> progress (last states) = progress w
            \<and> fst (click_download_image L env url output_path (w, ui))
                = w\<lparr>files := (files w)(fpath \<mapsto> body)\<rparr>
            \<and> bar (snd (click_download_image L env url output_path (w, ui))) = bar ui @ [0, 1]"
    if h: "(content_length resp = NoHeader \<or> content_length resp = IntegerHeader 0)
              \<and> content resp = Inr body" for body
  proof -
    have hi: "header_int (content_length resp) = Inr 0" using h by auto
    have run: "download_image L env url output_path w
                 = (?ok, [?z, w\<lparr>files := (files w)(fpath \<mapsto> body)\<rparr>])"
      using h unfolding opened [OF hi] by (simp add: Let_def)
    then have "r = ?ok" "states = [?z, w\<lparr>files := (files w)(fpath \<mapsto> body)\<rparr>]"
      using assms(7) by simp_all
    moreover have "fst (click_download_image L env url output_path (w, ui))
                     = w\<lparr>files := (files w)(fpath \<mapsto> body)\<rparr>
                   \<and> bar (snd (click_download_image L env url output_path (w, ui))) = bar ui @ [0, 1]"
      using run by (simp add: click_download_image_def finish_download_def st_success_def Let_def)
    ultimately show ?thesis by simp
  qed
  show ?thesis using A B C by blast
qed

text \<open>
  The witness runs three downloads of \<^verbatim>\<open>http://example.org/a/b/photo.png\<close>. The first
  announces 2000 bytes and delivers them in chunks of 1024 and 976 bytes: three states, the
  progress 1024 / 2000 as a float after the first chunk and 1 at the end. The second
  delivers only the first chunk and then breaks: the call fails, and the progress has
  been set all the same. The third has no \<^verbatim>\<open>Content-Length\<close>: the progress stays at
  the 1 / 2 it started from.
\<close>

theorem download_image_progress_witness:
  "fst (download_image plain_urllib
          \<lparr>http_get = (\<lambda>u. Inr \<lparr>status_error = None, content_length = IntegerHeader 2000,
                iter_content = (\<lambda>k. [replicate 1024 CHR ''a'', replicate 976 CHR ''b'']),
                stream_error = None,
                content = Inr (replicate 1024 CHR ''a'' @ replicate 976 CHR ''b'')\<rparr>),
           unix_time = 1700000000, open_error = (\<lambda>f. None)\<rparr>
          ''http://example.org/a/b/photo.png'' ''/tmp'' \<lparr>progress = 0, files = Map.empty\<rparr>)
     = (True, ''Successfully downloaded: photo.png'')
   \<and> length (snd (download_image plain_urllib
          \<lparr>http_get = (\<lambda>u. Inr \<lparr>status_error = None, content_length = IntegerHeader 2000,
                iter_content = (\<lambda>k. [replicate 1024 CHR ''a'', replicate 976 CHR ''b'']),
                stream_error = None,
                content = Inr (replicate 1024 CHR ''a'' @ replicate 976 CHR ''b'')\<rparr>),
           unix_time = 1700000000, open_error = (\<lambda>f. None)\<rparr>
          ''http://example.org/a/b/photo.png'' ''/tmp'' \<lparr>progress = 0, files = Map.empty\<rparr>)) = 3
   \<and> int_truediv 1024 2000 = Inr (progress (snd (download_image plain_urllib
          \<lparr>http_get = (\<lambda>u. Inr \<lparr>status_error = None, content_length = IntegerHeader 2000,
                iter_content = (\<lambda>k. [replicate 1024 CHR ''a'', replicate 976 CHR ''b'']),
                stream_error = None,
                content = Inr (replicate 1024 CHR ''a'' @ replicate 976 CHR ''b'')\<rparr>),
           unix_time = 1700000000, open_error = (\<lambda>f. None)\<rparr>
          ''http://example.org/a/b/photo.png'' ''/tmp'' \<lparr>progress = 0, files = Map.empty\<rparr>) ! 1))
   \<and> files (snd (download_image plain_urllib
          \<lparr>http_get = (\<lambda>u. Inr \<lparr>status_error = None, content_length = IntegerHeader 2000,
                iter_content = (\<lambda>k. [replicate 1024 CHR ''a'', replicate 976 CHR ''b'']),
                stream_error = None,
                content = Inr (replicate 1024 CHR ''a'' @ replicate 976 CHR ''b'')\<rparr>),
           unix_time = 1700000000, open_error = (\<lambda>f. None)\<rparr>
          ''http://example.org/a/b/photo.png'' ''/tmp'' \<lparr>progress = 0, files = Map.empty\<rparr>) ! 1)
        ''/tmp/photo.png''
     = Some (replicate 1024 CHR ''a'')
   \<and> progress (last (snd (download_image plain_urllib
          \<lparr>http_get = (\<lambda>u. Inr \<lparr>status_error = None, content_length = IntegerHeader 2000,
                iter_content = (\<lambda>k. [replicate 1024 CHR ''a'', replicate 976 CHR ''b'']),
                stream_error = None,
                content = Inr (replicate 1024 CHR ''a'' @ replicate 976 CHR ''b'')\<rparr>),
           unix_time = 1700000000, open_error = (\<lambda>f. None)\<rparr>
          ''http://example.org/a/b/photo.png'' ''/tmp'' \<lparr>progress = 0, files = Map.empty\<rparr>))) = 1
   \<and> fst (download_image plain_urllib
          \<lparr>http_get = (\<lambda>u. Inr \<lparr>status_error = None, content_length = IntegerHeader 2000,
                iter_content = (\<lambda>k. [replicate 1024 CHR ''a'']),
                stream_error = Some (RaisedError ''Connection broken''),
                content = Inl (RaisedError ''Connection broken'')\<rparr>),
           unix_time = 1700000000, open_error = (\<lambda>f. None)\<rparr>
          ''http://example.org/a/b/photo.png'' ''/tmp'' \<lparr>progress = 0, files = Map.empty\<rparr>)
     = (False, ''Error downloading image: Connection broken'')
   \<and> int_truediv 1024 2000 = Inr (progress (last (snd (download_image plain_urllib
          \<lparr>http_get = (\<lambda>u. Inr \<lparr>status_error = None, content_length = IntegerHeader 2000,
                iter_content = (\<lambda>k. [replicate 1024 CHR ''a'']),
                stream_error = Some (RaisedError ''Connection broken''),
                content = Inl (RaisedError ''Connection broken'')\<rparr>),
           unix_time = 1700000000, open_error = (\<lambda>f. None)\<rparr>
          ''http://example.org/a/b/photo.png'' ''/tmp'' \<lparr>progress = 0, files = Map.empty\<rparr>))))
   \<and> progress (last (snd (download_image plain_urllib
          \<lparr>http_get = (\<lambda>u. Inr \<lparr>status_error = None, content_length = NoHeader,
                iter_content = (\<lambda>k. []), stream_error = None, content = Inr ''abc''\<rparr>),
           unix_time = 1700000000, open_error = (\<lambda>f. None)\<rparr>
          ''http://example.org/a/b/photo.png'' ''/tmp'' \<lparr>progress = 1 / 2, files = Map.empty\<rparr>)))
     = 1 / 2"
proof -
  let ?cs = "[replicate 1024 CHR ''a'', replicate 976 CHR ''b'']"
  let ?ra = "\<lparr>status_error = None, content_length = IntegerHeader 2000,
              iter_content = (\<lambda>k::nat. ?cs), stream_error = None,
              content = Inr (replicate 1024 CHR ''a'' @ replicate 976 CHR ''b'')\<rparr>"
  let ?rb = "\<lparr>status_error = None, content_length = NoHeader,
              iter_content = (\<lambda>k::nat. []), stream_error = None, content = Inr ''abc''\<rparr>"
  let ?rc = "\<lparr>status_error = None, content_length = IntegerHeader 2000,
              iter_content = (\<lambda>k::nat. [replicate 1024 CHR ''a'']),
              stream_error = Some (RaisedError ''Connection broken''),
              content = Inl (RaisedError ''Connection broken'')\<rparr>"
  let ?ea = "\<lparr>http_get = (\<lambda>u::string. Inr ?ra), unix_time = 1700000000, open_error = (\<lambda>f::string. None)\<rparr>"
  let ?eb = "\<lparr>http_get = (\<lambda>u::string. Inr ?rb), unix_time = 1700000000, open_error = (\<lambda>f::string. None)\<rparr>"
  let ?ec = "\<lparr>http_get = (\<lambda>u::string. Inr ?rc), unix_time = 1700000000, open_error = (\<lambda>f::string. None)\<rparr>"
  let ?p = "\<lparr>scheme = ''http'', netloc = ''example.org'', path = ''/a/b/photo.png'', query = [],
            fragment = [], params = []\<rparr>"
  let ?u = "''http://example.org/a/b/photo.png''"
  let ?w = "\<lparr>progress = 0, files = Map.empty\<rparr>"
  let ?v = "\<lparr>progress = 1 / 2, files = Map.empty\<rparr>"
  let ?da = "download_image plain_urllib ?ea ?u ''/tmp'' ?w"
  let ?db = "download_image plain_urllib ?eb ?u ''/tmp'' ?v"
  let ?dc = "download_image plain_urllib ?ec ?u ''/tmp'' ?w"
  have u: "urlparse plain_urllib ?u = Inr ?p"
    by (simp add: urlparse_def urlsplit_def clean_url_def split_scheme_def split_netloc_def
        check_netloc_def check_brackets_def checknetloc_def is_ascii_def before_first_def
        after_first_def c0_control_or_space_def unsafe_url_byte_def ascii_alpha_def
        scheme_char_def ascii_lower_def lower_char_def netloc_delim_def uses_params_def)
  have fna: "''photo.png''
              = (if basename (path ?p) = [] then ''image_'' @ str_int (unix_time ?ea) @ ''.jpg''
                 else basename (path ?p))"
    by (simp add: basename_def after_last_def)
  have fnb: "''photo.png''
              = (if basename (path ?p) = [] then ''image_'' @ str_int (unix_time ?eb) @ ''.jpg''
                 else basename (path ?p))"
    by (simp add: basename_def after_last_def)
  have fnc: "''photo.png''
              = (if basename (path ?p) = [] then ''image_'' @ str_int (unix_time ?ec) @ ''.jpg''
                 else basename (path ?p))"
    by (simp add: basename_def after_last_def)
  have fp: "''/tmp/photo.png'' = os_path_join ''/tmp'' ''photo.png''"
    by (simp add: os_path_join_def endswith_def)
  have ga: "http_get ?ea ?u = Inr ?ra" by simp
  have gb: "http_get ?eb ?u = Inr ?rb" by simp
  have gc: "http_get ?ec ?u = Inr ?rc" by simp
  have sa: "status_error ?ra = None" and sb: "status_error ?rb = None"
    and sc: "status_error ?rc = None" by simp_all
  have oa: "open_error ?ea ''/tmp/photo.png'' = None"
    and ob: "open_error ?eb ''/tmp/photo.png'' = None"
    and oc: "open_error ?ec ''/tmp/photo.png'' = None" by simp_all
  have pa: "?da = (fst ?da, snd ?da)" and pb: "?db = (fst ?db, snd ?db)"
    and pc: "?dc = (fst ?dc, snd ?dc)" by simp_all
  note Ta = download_image_progress [OF ga sa u fna fp oa pa]
  note Tb = download_image_progress [OF gb sb u fnb fp ob pb]
  note Tc = download_image_progress [OF gc sc u fnc fp oc pc]
  obtain q where q: "int_truediv 1024 2000 = Inr q"
    using int_truediv_unit [of 1024 2000] by auto
  have ha: "content_length ?ra = IntegerHeader 2000 \<and> (0::int) < 2000
              \<and> int (length (concat (iter_content ?ra 1024))) \<le> 2000"
    by simp
  have hn: "content_length ?ra = IntegerHeader 2000 \<and> (2000::int) \<noteq> 0" by simp
  have hf: "iter_content ?ra 1024 \<noteq> [] \<and> int (length (concat (iter_content ?ra 1024))) = 2000"
    by simp
  have a1: "fst ?da = (case stream_error ?ra of
                         None \<Rightarrow> (True, ''Successfully downloaded: '' @ ''photo.png'')
                       | Some e \<Rightarrow> (False, ''Error downloading image: '' @ str_error e))"
    and a2: "length (snd ?da) = Suc (length (iter_content ?ra 1024))"
    and a5: "progress (last (snd ?da)) = 1"
    using Ta ha hf by blast+
  have a34: "files (snd ?da ! Suc 0) = (files ?w)(''/tmp/photo.png'' \<mapsto> concat (take (Suc 0) (iter_content ?ra 1024)))
             \<and> (case int_truediv (int (length (concat (take (Suc 0) (iter_content ?ra 1024))))) 2000 of
                  Inr x \<Rightarrow> progress (snd ?da ! Suc 0) = x
                | Inl e \<Rightarrow> progress (snd ?da ! Suc 0) = progress (snd ?da ! 0)
                           \<and> Suc (Suc 0) = length (snd ?da)
                           \<and> fst ?da = (False, ''Error downloading image: '' @ str_error e))"
  proof -
    have "\<forall>i. Suc i < length (snd ?da) \<longrightarrow>
            files (snd ?da ! Suc i) = (files ?w)(''/tmp/photo.png'' \<mapsto> concat (take (Suc i) (iter_content ?ra 1024)))
             \<and> (case int_truediv (int (length (concat (take (Suc i) (iter_content ?ra 1024))))) 2000 of
                  Inr x \<Rightarrow> progress (snd ?da ! Suc i) = x
                | Inl e \<Rightarrow> progress (snd ?da ! Suc i) = progress (snd ?da ! i)
                           \<and> Suc (Suc i) = length (snd ?da)
                           \<and> fst ?da = (False, ''Error downloading image: '' @ str_error e))"
      using Ta hn by blast
    moreover have "Suc 0 < length (snd ?da)" using a2 by simp
    ultimately show ?thesis by blast
  qed
  have a3: "int_truediv 1024 2000 = Inr (progress (snd ?da ! 1))"
    using a34 q by simp
  have a4: "files (snd ?da ! 1) ''/tmp/photo.png'' = Some (replicate 1024 CHR ''a'')"
    using a34 by simp
  have hc: "content_length ?rc = IntegerHeader 2000 \<and> (0::int) < 2000
              \<and> int (length (concat (iter_content ?rc 1024))) \<le> 2000"
    by simp
  have hcn: "content_length ?rc = IntegerHeader 2000 \<and> (2000::int) \<noteq> 0" by simp
  have c1: "fst ?dc = (case stream_error ?rc of
                         None \<Rightarrow> (True, ''Successfully downloaded: '' @ ''photo.png'')
                       | Some e \<Rightarrow> (False, ''Error downloading image: '' @ str_error e))"
    and c2: "length (snd ?dc) = Suc (length (iter_content ?rc 1024))"
    using Tc hc by blast+
  have c34: "files (snd ?dc ! Suc 0) = (files ?w)(''/tmp/photo.png'' \<mapsto> concat (take (Suc 0) (iter_content ?rc 1024)))
             \<and> (case int_truediv (int (length (concat (take (Suc 0) (iter_content ?rc 1024))))) 2000 of
                  Inr x \<Rightarrow> progress (snd ?dc ! Suc 0) = x
                | Inl e \<Rightarrow> progress (snd ?dc ! Suc 0) = progress (snd ?dc ! 0)
                           \<and> Suc (Suc 0) = length (snd ?dc)
                           \<and> fst ?dc = (False, ''Error downloading image: '' @ str_error e))"
  proof -
    have "\<forall>i. Suc i < length (snd ?dc) \<longrightarrow>
            files (snd ?dc ! Suc i) = (files ?w)(''/tmp/photo.png'' \<mapsto> concat (take (Suc i) (iter_content ?rc 1024)))
             \<and> (case int_truediv (int (length (concat (take (Suc i) (iter_content ?rc 1024))))) 2000 of
                  Inr x \<Rightarrow> progress (snd ?dc ! Suc i) = x
                | Inl e \<Rightarrow> progress (snd ?dc ! Suc i) = progress (snd ?dc ! i)
                           \<and> Suc (Suc i) = length (snd ?dc)
                           \<and> fst ?dc = (False, ''Error downloading image: '' @ str_error e))"
      using Tc hcn by blast
    moreover have "Suc 0 < length (snd ?dc)" using c2 by simp
    ultimately show ?thesis by blast
  qed
  have cl: "last (snd ?dc) = snd ?dc ! 1"
    using c2 by (cases "snd ?dc") (auto simp: last_conv_nth)
  have c3: "int_truediv 1024 2000 = Inr (progress (last (snd ?dc)))"
    unfolding cl using c34 q by simp
  have hb: "(content_length ?rb = NoHeader \<or> content_length ?rb = IntegerHeader 0)
              \<and> content ?rb = Inr ''abc''"
    by simp
  have b1: "progress (last (snd ?db)) = progress ?v"
    using Tb hb by blast
  have r1: "fst ?da = (True, ''Successfully downloaded: photo.png'')" using a1 by simp
  have r2: "length (snd ?da) = 3" using a2 by simp
  have r6: "fst ?dc = (False, ''Error downloading image: Connection broken'')" using c1 by simp
  have r8: "progress (last (snd ?db)) = 1 / 2" using b1 by simp
  show ?thesis
    by (rule conjI [OF r1 conjI [OF r2 conjI [OF a3 conjI [OF a4 conjI [OF a5
          conjI [OF r6 conjI [OF c3 r8]]]]]]])
qed

section \<open>Properties of the view-count formatting\<close>

lemma ilog2_less:
  assumes "0 < x" and "x < pow2 e"
  shows "ilog2 x < e"
proof (rule ccontr)
  assume "\<not> ilog2 x < e"
  then have "pow2 e \<le> pow2 (ilog2 x)" by (intro pow2_mono) simp
  also have "\<dots> \<le> x" using assms(1) by (rule ilog2_bounds)
  finally show False using assms(2) by simp
qed

lemma float_of_rat_overflow:
  assumes "pow2 1024 \<le> x"
  shows "float_of_rat x = Inl OverflowError"
proof -
  have p: "0 < x" using assms pow2_pos [of 1024] by linarith
  have "pow2 1024 < pow2 (ilog2 x + 1)" using assms ilog2_bounds(2) [OF p] by simp
  then have "1024 \<le> ilog2 x"
    using pow2_mono [of "ilog2 x + 1" 1024] by (cases "1024 \<le> ilog2 x") auto
  then have "pow2 1024 \<le> pow2 (ilog2 x)" by (rule pow2_mono)
  also have "\<dots> \<le> round_to_double x"
    using p ilog2_bounds(1) [OF p]
  proof (rule round_to_double_above)
    show "max (ilog2 x - 52) (- 1074) \<le> ilog2 x" using \<open>1024 \<le> ilog2 x\<close> by simp
  qed
  finally show ?thesis using p by (simp add: float_of_rat_def Let_def)
qed

lemma float_of_rat_fits:
  assumes "0 < x" and "x \<le> pow2 1023"
  shows "float_of_rat x = Inr (round_to_double x)"
proof -
  have "x < pow2 1024" using assms(2) pow2_strict_mono [of 1023 1024] by simp
  then have "ilog2 x < 1024" using assms(1) by (intro ilog2_less)
  then have "max (ilog2 x - 52) (- 1074) \<le> 1023" by simp
  then have "round_to_double x \<le> pow2 1023"
    using assms by (intro round_to_double_below)
  also have "\<dots> < pow2 1024" by (rule pow2_strict_mono) simp
  finally show ?thesis using assms(1) by (simp add: float_of_rat_def Let_def)
qed

lemma format_1f_nonneg:
  "0 \<le> q \<Longrightarrow> format_1f q =
     (let n = nat (round_half_even (10 * q)) in str_nat (n div 10) @ ''.'' @ str_nat (n mod 10))"
  by (simp add: format_1f_def Let_def)

text \<open>
  Dividing by \<open>D\<close>, rounding to a float and rounding that to one decimal gives the tenth
  nearest to the exact quotient, for a quotient from 1 to 1000.
\<close>

lemma one_decimal_of_quotient:
  assumes "0 < D" and "even D" and "D \<le> 1000000000" and "D \<le> c" and "c < 1000 * D"
  shows "\<exists>q n. int_truediv c D = Inr q \<and> 0 \<le> q \<and> n = nat (round_half_even (10 * q))
           \<and> \<bar>of_nat n - 10 * of_int c / of_int D\<bar> \<le> (1 / 2 :: rat)"
proof -
  let ?x = "of_int c / of_int D :: rat"
  have Dp: "(0::rat) < of_int D" using assms(1) by simp
  have x1: "1 \<le> ?x" using assms(1,4) by (simp add: le_divide_eq)
  have x2: "?x < 1000" using assms(1,5) by (simp add: divide_less_eq)
  have xp: "0 < ?x" using x1 by linarith
  have p10: "pow2 10 = 1024" by (simp add: pow2_def)
  have "?x < pow2 10" using x2 p10 by linarith
  then have il: "ilog2 ?x < 10" using xp by (intro ilog2_less)
  have "pow2 10 \<le> pow2 1023" by (rule pow2_mono) simp
  then have "?x \<le> pow2 1023" using \<open>?x < pow2 10\<close> by linarith
  then have fl: "float_of_rat ?x = Inr (round_to_double ?x)" using xp by (intro float_of_rat_fits)
  let ?q = "round_to_double ?x"
  have q0: "0 \<le> ?q" using xp by (rule round_to_double_nonneg)
  have "pow2 (max (ilog2 ?x - 52) (- 1074)) \<le> pow2 (- 43)" using il by (intro pow2_mono) simp
  then have "pow2 (max (ilog2 ?x - 52) (- 1074)) / 2 \<le> pow2 (- 43) / 2" by simp
  then have err: "\<bar>?q - ?x\<bar> \<le> pow2 (- 43) / 2"
    using round_to_double_error [of ?x] by linarith
  let ?m = "round_half_even (10 * ?q)"
  have "round_half_even 0 \<le> ?m" using q0 by (intro round_half_even_mono) simp
  then have m0: "0 \<le> ?m" using round_half_even_of_int [of 0] by simp
  have rm: "\<bar>of_int ?m - 10 * ?q\<bar> \<le> 1 / 2"
    using round_half_even_bounds(1,2) [of "10 * ?q"] by linarith
  have close: "\<bar>of_int ?m - 10 * ?x\<bar> \<le> 1 / 2 + 10 * (pow2 (- 43) / 2)"
    using rm err by linarith
  have small: "10 * (pow2 (- 43) / 2) * 1000000000 < (1::rat)" by (simp add: pow2_def)
  have "\<bar>of_int ?m - 10 * ?x\<bar> * of_int D \<le> (1 / 2 + 10 * (pow2 (- 43) / 2)) * of_int D"
    using close Dp by (intro mult_right_mono) simp_all
  moreover have "\<bar>of_int ?m - 10 * ?x\<bar> * of_int D = \<bar>of_int (?m * D - 10 * c)\<bar>"
  proof -
    have "\<bar>of_int ?m - 10 * ?x\<bar> * of_int D = \<bar>(of_int ?m - 10 * ?x) * of_int D\<bar>"
      using Dp by (simp add: abs_mult)
    also have "(of_int ?m - 10 * ?x) * of_int D = of_int (?m * D - 10 * c)"
      using Dp by (simp add: left_diff_distrib)
    finally show ?thesis .
  qed
  moreover have "(1 / 2 + 10 * (pow2 (- 43) / 2)) * of_int D < of_int D / 2 + 1"
  proof -
    have "(of_int D :: rat) \<le> of_int 1000000000" using assms(3) by (simp only: of_int_le_iff)
    then have "(of_int D :: rat) \<le> 1000000000" by simp
    then have "10 * (pow2 (- 43) / 2) * of_int D \<le> 10 * (pow2 (- 43) / 2) * 1000000000"
      by (intro mult_left_mono) simp_all
    then have "10 * (pow2 (- 43) / 2) * of_int D < 1" using small by linarith
    then show ?thesis by (simp add: distrib_right)
  qed
  ultimately have lt: "(\<bar>of_int (?m * D - 10 * c)\<bar> :: rat) < of_int D / 2 + 1" by linarith
  obtain k where k: "D = 2 * k" using assms(2) by (elim evenE)
  have "(of_int D :: rat) / 2 = of_int k" by (simp add: k)
  then have "(of_int \<bar>?m * D - 10 * c\<bar> :: rat) < of_int (k + 1)" using lt by simp
  then have "\<bar>?m * D - 10 * c\<bar> < k + 1" by (simp only: of_int_less_iff)
  then have "2 * \<bar>?m * D - 10 * c\<bar> \<le> D" using k by simp
  then have "(of_int (2 * \<bar>?m * D - 10 * c\<bar>) :: rat) \<le> of_int D" by (simp only: of_int_le_iff)
  then have "2 * \<bar>(of_int ?m * of_int D - 10 * of_int c :: rat)\<bar> \<le> of_int D" by simp
  moreover have "(of_int ?m * of_int D - 10 * of_int c :: rat) = (of_int ?m - 10 * ?x) * of_int D"
    using Dp by (simp add: left_diff_distrib)
  ultimately have "2 * (\<bar>of_int ?m - 10 * ?x\<bar> * of_int D) \<le> of_int D"
    using Dp by (simp add: abs_mult)
  then have "\<bar>of_int ?m - 10 * ?x\<bar> * (2 * of_int D) \<le> 1 / 2 * (2 * of_int D)" by simp
  then have "\<bar>of_int ?m - 10 * ?x\<bar> \<le> 1 / 2"
    using Dp by (simp only: mult_le_cancel_right)
  then have "\<bar>of_nat (nat ?m) - 10 * of_int c / of_int D\<bar> \<le> (1 / 2 :: rat)"
    using m0 by simp
  moreover have "int_truediv c D = Inr ?q" using fl assms(1) by (simp add: int_truediv_def)
  ultimately show ?thesis using q0 by blast
qed

lemma suffixed_one_decimal:
  assumes "0 < D" and "even D" and "D \<le> 1000000000" and "D \<le> c" and "c < 1000 * D"
  shows "\<exists>n. suffixed c D sfx = Inr (str_nat (n div 10) @ ''.'' @ str_nat (n mod 10) @ sfx)
           \<and> \<bar>of_nat n - 10 * of_int c / of_int D\<bar> \<le> (1 / 2 :: rat)"
proof -
  obtain q n where q: "int_truediv c D = Inr q" "0 \<le> q" "n = nat (round_half_even (10 * q))"
      "\<bar>of_nat n - 10 * of_int c / of_int D\<bar> \<le> (1 / 2 :: rat)"
    using one_decimal_of_quotient [OF assms] by blast
  have "suffixed c D sfx = Inr (str_nat (n div 10) @ ''.'' @ str_nat (n mod 10) @ sfx)"
    using q(1,2,3) by (simp add: suffixed_def format_1f_nonneg Let_def)
  then show ?thesis using q(4) by blast
qed

lemma format_views_billions:
  "1000000000 \<le> c \<Longrightarrow> format_views (PInt c) = suffixed c 1000000000 ''B''"
  by simp

lemma two_pow_1024: "pow2 1024 = of_int (2 ^ 1024)"
  by (simp add: pow2_nat)

text \<open>
  Claim C8, as stated, fails: for the count \<open>10\<^sup>9 \<sqdot> 2\<^sup>1\<^sup>0\<^sup>2\<^sup>4\<close> the quotient by 1,000,000,000 is
  \<open>2\<^sup>1\<^sup>0\<^sup>2\<^sup>4\<close>, which is too large for a float: the division raises \<^verbatim>\<open>OverflowError\<close> and
  no string with a B suffix is produced.
\<close>

theorem format_views_overflow_counterexample:
  "format_views (PInt (1000000000 * 2 ^ 1024)) = Inl OverflowError"
proof -
  have one: "(1::int) \<le> 2 ^ 1024" by (rule one_le_power) simp
  then have big: "(1000000000::int) \<le> 1000000000 * 2 ^ 1024" by simp
  have "(of_int (1000000000 * 2 ^ 1024) :: rat) / of_int 1000000000 = of_int (2 ^ 1024)"
    by (simp only: of_int_mult)
  then have "float_of_rat (of_int (1000000000 * 2 ^ 1024) / of_int 1000000000) = Inl OverflowError"
    using float_of_rat_overflow [of "of_int (2 ^ 1024)"] by (simp only: two_pow_1024 order_refl)
  then have "suffixed (1000000000 * 2 ^ 1024) 1000000000 ''B'' = Inl OverflowError"
    by (simp only: suffixed_def int_truediv_def) simp
  then show ?thesis using format_views_billions [OF big] by simp
qed

text \<open>
  Claim C8, amended. \<^verbatim>\<open>format_views\<close> maps \<^verbatim>\<open>None\<close> and zero to \<^verbatim>\<open>No views\<close>; a count
  below 1,000 to its integer string; a count below 1,000,000 to the count divided by
  1,000 with one decimal digit and a K suffix; below 1,000,000,000 likewise with divisor
  1,000,000 and an M suffix; and from 1,000,000,000 on, as long as the quotient by
  1,000,000,000 fits a float (it does up to \<open>2\<^sup>1\<^sup>0\<^sup>2\<^sup>3\<close>), with that divisor and a B suffix.
  For quotients below 1000 the number printed is a tenth nearest to the exact quotient.
  A quotient of \<open>2\<^sup>1\<^sup>0\<^sup>2\<^sup>4\<close> or more raises \<^verbatim>\<open>OverflowError\<close>.
\<close>

theorem format_views_ranges:
  "format_views PNone = Inr ''No views''
   \<and> format_views (PInt 0) = Inr ''No views''
   \<and> (c \<noteq> 0 \<and> c < 1000 \<longrightarrow> format_views (PInt c) = Inr (str_int c))
   \<and> (1000 \<le> c \<and> c < 1000000 \<longrightarrow>
        (\<exists>n. format_views (PInt c) = Inr (str_nat (n div 10) @ ''.'' @ str_nat (n mod 10) @ ''K'')
             \<and> \<bar>of_nat n - 10 * of_int c / of_int 1000\<bar> \<le> (1 / 2 :: rat)))
   \<and> (1000000 \<le> c \<and> c < 1000000000 \<longrightarrow>
        (\<exists>n. format_views (PInt c) = Inr (str_nat (n div 10) @ ''.'' @ str_nat (n mod 10) @ ''M'')
             \<and> \<bar>of_nat n - 10 * of_int c / of_int 1000000\<bar> \<le> (1 / 2 :: rat)))
   \<and> (1000000000 \<le> c \<and> c < 1000000000000 \<longrightarrow>
        (\<exists>n. format_views (PInt c) = Inr (str_nat (n div 10) @ ''.'' @ str_nat (n mod 10) @ ''B'')
             \<and> \<bar>of_nat n - 10 * of_int c / of_int 1000000000\<bar> \<le> (1 / 2 :: rat)))
   \<and> (1000000000 \<le> c \<and> of_int c / of_int 1000000000 \<le> pow2 1023 \<longrightarrow>
        format_views (PInt c)
          = Inr (format_1f (round_to_double (of_int c / of_int 1000000000)) @ ''B''))
   \<and> (pow2 1024 \<le> of_int c / of_int 1000000000 \<longrightarrow> format_views (PInt c) = Inl OverflowError)"
proof -
  have A: "format_views PNone = Inr ''No views''" by simp
  have B: "format_views (PInt 0) = Inr ''No views''" by simp
  have C: "c \<noteq> 0 \<and> c < 1000 \<longrightarrow> format_views (PInt c) = Inr (str_int c)" by simp
  have K: "1000 \<le> c \<and> c < 1000000 \<longrightarrow>
        (\<exists>n. format_views (PInt c) = Inr (str_nat (n div 10) @ ''.'' @ str_nat (n mod 10) @ ''K'')
             \<and> \<bar>of_nat n - 10 * of_int c / of_int 1000\<bar> \<le> (1 / 2 :: rat))"
  proof
    assume h: "1000 \<le> c \<and> c < 1000000"
    then have f: "format_views (PInt c) = suffixed c 1000 ''K''" by simp
    have "\<exists>n. suffixed c 1000 ''K'' = Inr (str_nat (n div 10) @ ''.'' @ str_nat (n mod 10) @ ''K'')
             \<and> \<bar>of_nat n - 10 * of_int c / of_int 1000\<bar> \<le> (1 / 2 :: rat)"
      using h by (intro suffixed_one_decimal) simp_all
    then show "\<exists>n. format_views (PInt c) = Inr (str_nat (n div 10) @ ''.'' @ str_nat (n mod 10) @ ''K'')
             \<and> \<bar>of_nat n - 10 * of_int c / of_int 1000\<bar> \<le> (1 / 2 :: rat)"
      unfolding f .
  qed
  have M: "1000000 \<le> c \<and> c < 1000000000 \<longrightarrow>
        (\<exists>n. format_views (PInt c) = Inr (str_nat (n div 10) @ ''.'' @ str_nat (n mod 10) @ ''M'')
             \<and> \<bar>of_nat n - 10 * of_int c / of_int 1000000\<bar> \<le> (1 / 2 :: rat))"
  proof
    assume h: "1000000 \<le> c \<and> c < 1000000000"
    then have f: "format_views (PInt c) = suffixed c 1000000 ''M''" by simp
    have "\<exists>n. suffixed c 1000000 ''M'' = Inr (str_nat (n div 10) @ ''.'' @ str_nat (n mod 10) @ ''M'')
             \<and> \<bar>of_nat n - 10 * of_int c / of_int 1000000\<bar> \<le> (1 / 2 :: rat)"
      using h by (intro suffixed_one_decimal) simp_all
    then show "\<exists>n. format_views (PInt c) = Inr (str_nat (n div 10) @ ''.'' @ str_nat (n mod 10) @ ''M'')
             \<and> \<bar>of_nat n - 10 * of_int c / of_int 1000000\<bar> \<le> (1 / 2 :: rat)"
      unfolding f .
  qed
  have G: "1000000000 \<le> c \<and> c < 1000000000000 \<longrightarrow>
        (\<exists>n. format_views (PInt c) = Inr (str_nat (n div 10) @ ''.'' @ str_nat (n mod 10) @ ''B'')
             \<and> \<bar>of_nat n - 10 * of_int c / of_int 1000000000\<bar> \<le> (1 / 2 :: rat))"
  proof
    assume h: "1000000000 \<le> c \<and> c < 1000000000000"
    then have f: "format_views (PInt c) = suffixed c 1000000000 ''B''"
      by (intro format_views_billions) simp
    have "\<exists>n. suffixed c 1000000000 ''B'' = Inr (str_nat (n div 10) @ ''.'' @ str_nat (n mod 10) @ ''B'')
             \<and> \<bar>of_nat n - 10 * of_int c / of_int 1000000000\<bar> \<le> (1 / 2 :: rat)"
      using h by (intro suffixed_one_decimal) simp_all
    then show "\<exists>n. format_views (PInt c) = Inr (str_nat (n div 10) @ ''.'' @ str_nat (n mod 10) @ ''B'')
             \<and> \<bar>of_nat n - 10 * of_int c / of_int 1000000000\<bar> \<le> (1 / 2 :: rat)"
      unfolding f .
  qed
  have F: "1000000000 \<le> c \<and> of_int c / of_int 1000000000 \<le> pow2 1023 \<longrightarrow>
        format_views (PInt c)
          = Inr (format_1f (round_to_double (of_int c / of_int 1000000000)) @ ''B'')"
  proof
    assume h: "1000000000 \<le> c \<and> of_int c / of_int 1000000000 \<le> pow2 1023"
    then have f: "format_views (PInt c) = suffixed c 1000000000 ''B''"
      by (intro format_views_billions) simp
    have "(0::rat) < of_int c / of_int 1000000000" using h by simp
    then have "float_of_rat (of_int c / of_int 1000000000)
                 = Inr (round_to_double (of_int c / of_int 1000000000))"
      using h by (intro float_of_rat_fits) simp_all
    then show "format_views (PInt c)
          = Inr (format_1f (round_to_double (of_int c / of_int 1000000000)) @ ''B'')"
      unfolding f by (simp add: suffixed_def int_truediv_def)
  qed
  have O: "pow2 1024 \<le> of_int c / of_int 1000000000 \<longrightarrow> format_views (PInt c) = Inl OverflowError"
  proof
    assume h: "pow2 1024 \<le> of_int c / of_int 1000000000"
    have "(1::rat) < of_int c / of_int 1000000000" using h one_less_pow2_1024 by linarith
    then have "1000000000 \<le> c" by (simp add: less_divide_eq)
    then have f: "format_views (PInt c) = suffixed c 1000000000 ''B''"
      by (rule format_views_billions)
    show "format_views (PInt c) = Inl OverflowError"
      unfolding f using float_of_rat_overflow [OF h] by (simp add: suffixed_def int_truediv_def)
  qed
  show ?thesis
    by (rule conjI [OF A conjI [OF B conjI [OF C conjI [OF K conjI [OF M conjI [OF G conjI [OF F O]]]]]]])
qed

lemma nearest_tenth_unique:
  assumes "\<bar>of_nat n - of_nat k\<bar> \<le> (1 / 2 :: rat)"
  shows "n = k"
proof -
  have "(of_nat n :: rat) < of_nat k + 1" "(of_nat k :: rat) < of_nat n + 1"
    using assms by linarith+
  then have "(of_nat n :: rat) < of_nat (k + 1)" "(of_nat k :: rat) < of_nat (n + 1)"
    by simp_all
  then have "n < k + 1" "k < n + 1" by (simp_all only: of_nat_less_iff)
  then show ?thesis by simp
qed

lemma str_nat_digit: "n < 10 \<Longrightarrow> str_nat n = [digit_char n]"
  by (simp add: str_nat.simps)

theorem format_views_ranges_witness:
  "format_views (PInt 999) = Inr ''999''
   \<and> format_views (PInt 1500) = Inr ''1.5K''
   \<and> format_views (PInt 2300000) = Inr ''2.3M''
   \<and> format_views (PInt 4000000000) = Inr ''4.0B''
   \<and> format_views (PInt (1000000000 * 2 ^ 1024)) = Inl OverflowError"
proof -
  have d: "str_nat 1 = ''1''" "str_nat 5 = ''5''" "str_nat 2 = ''2''" "str_nat 3 = ''3''"
    "str_nat 4 = ''4''" "str_nat 0 = ''0''"
    by (simp_all add: str_nat_digit digit_char_def)
  have s999: "str_int 999 = ''999''"
    by (simp add: str_int_def str_nat.simps digit_char_def)
  have a: "format_views (PInt 999) = Inr ''999''"
    using format_views_ranges [of 999] s999 by simp
  obtain n1 where n1: "format_views (PInt 1500)
        = Inr (str_nat (n1 div 10) @ ''.'' @ str_nat (n1 mod 10) @ ''K'')"
      "\<bar>of_nat n1 - 10 * of_int 1500 / of_int 1000\<bar> \<le> (1 / 2 :: rat)"
    using format_views_ranges [of 1500] by auto
  have "\<bar>of_nat n1 - of_nat 15\<bar> \<le> (1 / 2 :: rat)" using n1(2) by simp
  then have "n1 = 15" by (rule nearest_tenth_unique)
  then have b: "format_views (PInt 1500) = Inr ''1.5K''" using n1(1) d by simp
  obtain n2 where n2: "format_views (PInt 2300000)
        = Inr (str_nat (n2 div 10) @ ''.'' @ str_nat (n2 mod 10) @ ''M'')"
      "\<bar>of_nat n2 - 10 * of_int 2300000 / of_int 1000000\<bar> \<le> (1 / 2 :: rat)"
    using format_views_ranges [of 2300000] by auto
  have "\<bar>of_nat n2 - of_nat 23\<bar> \<le> (1 / 2 :: rat)" using n2(2) by simp
  then have "n2 = 23" by (rule nearest_tenth_unique)
  then have c: "format_views (PInt 2300000) = Inr ''2.3M''" using n2(1) d by simp
  obtain n3 where n3: "format_views (PInt 4000000000)
        = Inr (str_nat (n3 div 10) @ ''.'' @ str_nat (n3 mod 10) @ ''B'')"
      "\<bar>of_nat n3 - 10 * of_int 4000000000 / of_int 1000000000\<bar> \<le> (1 / 2 :: rat)"
    using format_views_ranges [of 4000000000] by auto
  have "\<bar>of_nat n3 - of_nat 40\<bar> \<le> (1 / 2 :: rat)" using n3(2) by simp
  then have "n3 = 40" by (rule nearest_tenth_unique)
  then have e: "format_views (PInt 4000000000) = Inr ''4.0B''" using n3(1) d by simp
  have "(of_int (1000000000 * 2 ^ 1024) :: rat) / of_int 1000000000 = of_int (2 ^ 1024)"
    by (simp only: of_int_mult)
  then have "pow2 1024 \<le> (of_int (1000000000 * 2 ^ 1024) :: rat) / of_int 1000000000"
    by (simp only: two_pow_1024 order_refl)
  then have f: "format_views (PInt (1000000000 * 2 ^ 1024)) = Inl OverflowError"
    using format_views_ranges [of "1000000000 * 2 ^ 1024"] by blast
  show ?thesis using a b c e f by blast
qed

end
